theory Spec2Isabelle
  imports Complex_Main "HOL-Library.Word"
begin

text \<open>
  A model of the shared queue-manager library: the rate limiter of \<open>lib/rate-limit.js\<close>,
  the session tokens of \<open>lib/session.js\<close> and the session environment files of
  \<open>lib/env-file.js\<close>, with the parts of JavaScript and Node they rest on (maps, strings,
  buffers, UTF-8, base64, hex). The definitions come first; the properties follow, one
  section for each file.
\<close>

section \<open>JavaScript containers used by the library\<close>

text \<open>
  A JavaScript \<open>Map\<close> keeps its entries in insertion order and holds every key at most
  once. It is modelled as an association list: \<open>map_get\<close> is \<open>Map.prototype.get\<close>
  (\<open>None\<close> for \<open>undefined\<close>), \<open>map_set\<close> is \<open>set\<close> (an existing key keeps its
  place, a new key goes last), \<open>map_delete\<close> is \<open>delete\<close> and \<open>map_size\<close> is \<open>size\<close>.
\<close>

type_synonym ('k, 'v) js_map = "('k \<times> 'v) list"

definition map_get :: "('k, 'v) js_map \<Rightarrow> 'k \<Rightarrow> 'v option" where
  "map_get m k = map_of m k"

fun map_set :: "'k \<Rightarrow> 'v \<Rightarrow> ('k, 'v) js_map \<Rightarrow> ('k, 'v) js_map" where
  "map_set k v [] = [(k, v)]"
| "map_set k v (e # es) = (if fst e = k then (k, v) # es else e # map_set k v es)"

definition map_delete :: "'k \<Rightarrow> ('k, 'v) js_map \<Rightarrow> ('k, 'v) js_map" where
  "map_delete k m = filter (\<lambda>e. fst e \<noteq> k) m"

definition map_size :: "('k, 'v) js_map \<Rightarrow> int" where
  "map_size m = int (length m)"

section \<open>Rate limiter (lib/rate-limit.js)\<close>

text \<open>
  The limiter is the closure that \<open>createRateLimiter\<close> returns: its three configuration
  values and the \<open>records\<close> map from key to \<open>{ count, resetAt }\<close>. Numbers are
  integers (milliseconds and counts). Every operation takes the limiter and returns the
  updated one; \<open>Date.now()\<close> is an argument of the operation that reads it.
\<close>

record rl_record =
  count :: int
  resetAt :: int

record 'k rate_limiter =
  windowMs :: int
  maxAttempts :: int
  cleanupThreshold :: int
  records :: "('k, rl_record) js_map"

record rate_limiter_options =
  opt_windowMs :: int
  opt_maxAttempts :: int
  opt_cleanupThreshold :: "int option"

record check_result =
  allowed :: bool
  remaining :: int
  retryAfter :: "int option"

text \<open>
  \<open>createRateLimiter\<close> throws on a window or a limit that is zero or negative
  (\<open>Inl\<close> carries the message of the \<open>Error\<close>); \<open>cleanupThreshold\<close> defaults to 1000.
\<close>

definition createRateLimiter :: "rate_limiter_options \<Rightarrow> string + 'k rate_limiter" where
  "createRateLimiter options =
     (if opt_windowMs options \<le> 0 then Inl ''windowMs must be a positive number''
      else if opt_maxAttempts options \<le> 0 then Inl ''maxAttempts must be a positive number''
      else Inr \<lparr> windowMs = opt_windowMs options,
                 maxAttempts = opt_maxAttempts options,
                 cleanupThreshold =
                   (case opt_cleanupThreshold options of None \<Rightarrow> 1000 | Some t \<Rightarrow> t),
                 records = [] \<rparr>)"

text \<open>\<open>cleanup\<close>: drop every record whose \<open>resetAt\<close> lies before the clock reading.\<close>

definition cleanup :: "int \<Rightarrow> 'k rate_limiter \<Rightarrow> 'k rate_limiter" where
  "cleanup now L = L\<lparr> records := filter (\<lambda>e. \<not> now > resetAt (snd e)) (records L) \<rparr>"

text \<open>\<open>Math.ceil(ms / 1000)\<close> on an integer number of milliseconds.\<close>

definition ceil_seconds :: "int \<Rightarrow> int" where
  "ceil_seconds ms = - ((- ms) div 1000)"

text \<open>
  \<open>check(key, increment)\<close>. The function reads the clock once (\<open>now\<close>); the sweep
  \<open>cleanup()\<close> it may call reads the clock again (\<open>sweep_now\<close>).
\<close>

definition check ::
  "'k rate_limiter \<Rightarrow> int \<Rightarrow> int \<Rightarrow> 'k \<Rightarrow> bool \<Rightarrow> check_result \<times> 'k rate_limiter" where
  "check L now sweep_now key increment =
     (let L1 = (case map_get (records L) key of
                  Some existing \<Rightarrow>
                    if now > resetAt existing
                    then L\<lparr> records := map_delete key (records L) \<rparr> else L
                | None \<Rightarrow> L);
          L2 = (if map_size (records L1) > cleanupThreshold L1 then cleanup sweep_now L1 else L1)
      in case map_get (records L2) key of
           None \<Rightarrow>
             (\<lparr> allowed = True, remaining = maxAttempts L2 - 1, retryAfter = None \<rparr>,
              if increment
              then L2\<lparr> records :=
                     map_set key \<lparr> count = 1, resetAt = now + windowMs L2 \<rparr> (records L2) \<rparr>
              else L2)
         | Some rcd \<Rightarrow>
             if count rcd \<ge> maxAttempts L2
             then (\<lparr> allowed = False, remaining = 0,
                     retryAfter = Some (ceil_seconds (resetAt rcd - now)) \<rparr>, L2)
             else if increment
             then (\<lparr> allowed = True, remaining = maxAttempts L2 - (count rcd + 1),
                     retryAfter = None \<rparr>,
                   L2\<lparr> records := map_set key (rcd\<lparr> count := count rcd + 1 \<rparr>) (records L2) \<rparr>)
             else (\<lparr> allowed = True, remaining = maxAttempts L2 - count rcd,
                     retryAfter = None \<rparr>, L2))"

text \<open>\<open>recordFailure(key)\<close>.\<close>

definition recordFailure :: "'k rate_limiter \<Rightarrow> int \<Rightarrow> 'k \<Rightarrow> 'k rate_limiter" where
  "recordFailure L now key =
     (case map_get (records L) key of
        None \<Rightarrow>
          L\<lparr> records := map_set key \<lparr> count = 1, resetAt = now + windowMs L \<rparr> (records L) \<rparr>
      | Some rcd \<Rightarrow>
          if now > resetAt rcd
          then L\<lparr> records := map_set key \<lparr> count = 1, resetAt = now + windowMs L \<rparr> (records L) \<rparr>
          else L\<lparr> records := map_set key (rcd\<lparr> count := count rcd + 1 \<rparr>) (records L) \<rparr>)"

text \<open>\<open>reset(key)\<close> and \<open>size()\<close>.\<close>

definition reset :: "'k rate_limiter \<Rightarrow> 'k \<Rightarrow> 'k rate_limiter" where
  "reset L key = L\<lparr> records := map_delete key (records L) \<rparr>"

definition size_limiter :: "'k rate_limiter \<Rightarrow> int" where
  "size_limiter L = map_size (records L)"

text \<open>
  A caller's loop, as in the repository's tests: \<open>check(key)\<close> with the default
  \<open>increment = true\<close>, once per pair of clock readings, collecting the results.
\<close>

fun check_calls ::
  "'k rate_limiter \<Rightarrow> 'k \<Rightarrow> (int \<times> int) list \<Rightarrow> check_result list \<times> 'k rate_limiter" where
  "check_calls L key [] = ([], L)"
| "check_calls L key (t # ts) =
     (let (r, L') = check L (fst t) (snd t) key True;
          (rs, L'') = check_calls L' key ts
      in (r # rs, L''))"

section \<open>JavaScript strings, buffers and numbers\<close>

text \<open>
  A JavaScript string is a sequence of 16-bit code units (UTF-16); a \<open>Buffer\<close> is a
  sequence of bytes. \<open>js\<close> writes an ASCII literal as a JavaScript string.
\<close>

type_synonym code_unit = "16 word"
type_synonym js_string = "code_unit list"
type_synonym byte = "8 word"
type_synonym buffer = "byte list"

definition js :: "string \<Rightarrow> js_string" where
  "js s = map (\<lambda>c. word_of_nat (of_char c)) s"

subsection \<open>Numbers as decimal strings\<close>

text \<open>
  \<open>Date.now()\<close> is an integer number of milliseconds; \<open>Number.prototype.toString\<close>
  writes an integer of that size in decimal, with a minus sign when it is negative.
\<close>

fun digits_of :: "nat \<Rightarrow> nat list" where
  "digits_of n = (if n < 10 then [n] else digits_of (n div 10) @ [n mod 10])"

declare digits_of.simps [simp del]

definition digit_unit :: "nat \<Rightarrow> code_unit" where
  "digit_unit d = word_of_nat (48 + d)"

definition number_to_string :: "int \<Rightarrow> js_string" where
  "number_to_string n =
     (if n < 0 then 0x2D # map digit_unit (digits_of (nat (- n)))
      else map digit_unit (digits_of (nat n)))"

text \<open>
  \<open>parseInt(s, 10)\<close>: leading white space is skipped, one sign is read, then the longest
  run of decimal digits; with no digit the result is \<open>NaN\<close> (\<open>None\<close>). Anything after the
  digits is ignored.
\<close>

definition is_white_space :: "code_unit \<Rightarrow> bool" where
  "is_white_space c \<longleftrightarrow>
     c \<in> {0x09, 0x0A, 0x0B, 0x0C, 0x0D, 0x20, 0xA0, 0x1680, 0x2028, 0x2029, 0x202F, 0x205F,
          0x3000, 0xFEFF} \<or> (0x2000 \<le> c \<and> c \<le> 0x200A)"

definition is_digit :: "code_unit \<Rightarrow> bool" where
  "is_digit c \<longleftrightarrow> 0x30 \<le> c \<and> c \<le> 0x39"

definition digits_value :: "js_string \<Rightarrow> int" where
  "digits_value ds = foldl (\<lambda>acc c. acc * 10 + (uint c - 48)) 0 ds"

definition parseInt :: "js_string \<Rightarrow> int option" where
  "parseInt s =
     (let s1 = dropWhile is_white_space s;
          neg = (case s1 of c # _ \<Rightarrow> c = 0x2D | [] \<Rightarrow> False);
          s2 = (case s1 of c # cs \<Rightarrow> if c = 0x2D \<or> c = 0x2B then cs else s1 | [] \<Rightarrow> []);
          ds = takeWhile is_digit s2
      in if ds = [] then None
         else Some (if neg then - digits_value ds else digits_value ds))"

subsection \<open>UTF-8: \<open>Buffer.from(string)\<close> and \<open>buffer.toString('utf8')\<close>\<close>

text \<open>
  \<open>Buffer.from(s)\<close> and \<open>hmac.update(s)\<close> write a string as UTF-8. A surrogate pair is
  one code point; a surrogate that is not part of a pair is written as U+FFFD.
\<close>

definition is_high_surrogate :: "code_unit \<Rightarrow> bool" where
  "is_high_surrogate u \<longleftrightarrow> 0xD800 \<le> u \<and> u \<le> 0xDBFF"

definition is_low_surrogate :: "code_unit \<Rightarrow> bool" where
  "is_low_surrogate u \<longleftrightarrow> 0xDC00 \<le> u \<and> u \<le> 0xDFFF"

definition unit_point :: "code_unit \<Rightarrow> nat" where
  "unit_point u = (if is_high_surrogate u \<or> is_low_surrogate u then 0xFFFD else unat u)"

fun code_points :: "js_string \<Rightarrow> nat list" where
  "code_points [] = []"
| "code_points [u] = [unit_point u]"
| "code_points (u # v # us) =
     (if is_high_surrogate u \<and> is_low_surrogate v
      then (0x10000 + (unat u - 0xD800) * 1024 + (unat v - 0xDC00)) # code_points us
      else unit_point u # code_points (v # us))"

definition utf8_bytes :: "nat \<Rightarrow> buffer" where
  "utf8_bytes cp =
     (if cp < 0x80 then [word_of_nat cp]
      else if cp < 0x800 then [word_of_nat (0xC0 + cp div 64), word_of_nat (0x80 + cp mod 64)]
      else if cp < 0x10000
      then [word_of_nat (0xE0 + cp div 4096), word_of_nat (0x80 + cp div 64 mod 64),
            word_of_nat (0x80 + cp mod 64)]
      else [word_of_nat (0xF0 + cp div 262144), word_of_nat (0x80 + cp div 4096 mod 64),
            word_of_nat (0x80 + cp div 64 mod 64), word_of_nat (0x80 + cp mod 64)])"

definition utf8_encode :: "js_string \<Rightarrow> buffer" where
  "utf8_encode s = concat (map utf8_bytes (code_points s))"

text \<open>
  \<open>buffer.toString('utf8')\<close> never throws: it decodes as the WHATWG UTF-8 decoder does,
  writing U+FFFD for every ill-formed sequence and reading the offending byte again as
  the start of the next sequence. A code point above U+FFFF becomes a surrogate pair.
\<close>

record utf8_state =
  bytes_needed :: nat
  code_point :: nat
  lower_boundary :: nat
  upper_boundary :: nat

definition utf8_initial :: utf8_state where
  "utf8_initial = \<lparr> bytes_needed = 0, code_point = 0, lower_boundary = 0x80, upper_boundary = 0xBF \<rparr>"

definition utf8_lead :: "nat \<Rightarrow> nat list \<times> utf8_state" where
  "utf8_lead b =
     (if b \<le> 0x7F then ([b], utf8_initial)
      else if 0xC2 \<le> b \<and> b \<le> 0xDF
      then ([], \<lparr> bytes_needed = 1, code_point = b mod 32,
                 lower_boundary = 0x80, upper_boundary = 0xBF \<rparr>)
      else if 0xE0 \<le> b \<and> b \<le> 0xEF
      then ([], \<lparr> bytes_needed = 2, code_point = b mod 16,
                 lower_boundary = (if b = 0xE0 then 0xA0 else 0x80),
                 upper_boundary = (if b = 0xED then 0x9F else 0xBF) \<rparr>)
      else if 0xF0 \<le> b \<and> b \<le> 0xF4
      then ([], \<lparr> bytes_needed = 3, code_point = b mod 8,
                 lower_boundary = (if b = 0xF0 then 0x90 else 0x80),
                 upper_boundary = (if b = 0xF4 then 0x8F else 0xBF) \<rparr>)
      else ([0xFFFD], utf8_initial))"

fun utf8_run :: "utf8_state \<Rightarrow> nat list \<Rightarrow> nat list" where
  "utf8_run st [] = (if bytes_needed st = 0 then [] else [0xFFFD])"
| "utf8_run st (b # bs) =
     (if bytes_needed st = 0
      then fst (utf8_lead b) @ utf8_run (snd (utf8_lead b)) bs
      else if lower_boundary st \<le> b \<and> b \<le> upper_boundary st
      then (if bytes_needed st = 1
            then (code_point st * 64 + b mod 64) # utf8_run utf8_initial bs
            else utf8_run \<lparr> bytes_needed = bytes_needed st - 1,
                            code_point = code_point st * 64 + b mod 64,
                            lower_boundary = 0x80, upper_boundary = 0xBF \<rparr> bs)
      else 0xFFFD # fst (utf8_lead b) @ utf8_run (snd (utf8_lead b)) bs)"

definition utf16_units :: "nat \<Rightarrow> js_string" where
  "utf16_units cp =
     (if cp < 0x10000 then [word_of_nat cp]
      else [word_of_nat (0xD800 + (cp - 0x10000) div 1024),
            word_of_nat (0xDC00 + (cp - 0x10000) mod 1024)])"

definition utf8_decode :: "buffer \<Rightarrow> js_string" where
  "utf8_decode bs = concat (map utf16_units (utf8_run utf8_initial (map unat bs)))"

text \<open>\<open>String.prototype.isWellFormed\<close>: no surrogate outside a pair.\<close>

fun is_well_formed :: "js_string \<Rightarrow> bool" where
  "is_well_formed [] = True"
| "is_well_formed [u] = (\<not> is_high_surrogate u \<and> \<not> is_low_surrogate u)"
| "is_well_formed (u # v # us) =
     (if is_high_surrogate u \<and> is_low_surrogate v then is_well_formed us
      else \<not> is_high_surrogate u \<and> \<not> is_low_surrogate u \<and> is_well_formed (v # us))"

text \<open>
  \<open>String.prototype.toWellFormed\<close>: every surrogate outside a pair replaced by U+FFFD.
  A Unicode scalar value is a code point that is not a surrogate.
\<close>

definition to_well_formed :: "js_string \<Rightarrow> js_string" where
  "to_well_formed s = concat (map utf16_units (code_points s))"

definition scalar_value :: "nat \<Rightarrow> bool" where
  "scalar_value cp \<longleftrightarrow> cp < 0x110000 \<and> \<not> (0xD800 \<le> cp \<and> cp \<le> 0xDFFF)"

subsection \<open>Base64: \<open>buffer.toString('base64')\<close> and \<open>Buffer.from(string, 'base64')\<close>\<close>

definition base64_unit :: "nat \<Rightarrow> code_unit" where
  "base64_unit n =
     (if n < 26 then word_of_nat (65 + n)
      else if n < 52 then word_of_nat (97 + (n - 26))
      else if n < 62 then word_of_nat (48 + (n - 52))
      else if n = 62 then 0x2B else 0x2F)"

fun base64_encode :: "buffer \<Rightarrow> js_string" where
  "base64_encode [] = []"
| "base64_encode [a] =
     [base64_unit (unat a div 4), base64_unit (unat a mod 4 * 16), 0x3D, 0x3D]"
| "base64_encode [a, b] =
     [base64_unit (unat a div 4), base64_unit (unat a mod 4 * 16 + unat b div 16),
      base64_unit (unat b mod 16 * 4), 0x3D]"
| "base64_encode (a # b # c # bs) =
     [base64_unit (unat a div 4), base64_unit (unat a mod 4 * 16 + unat b div 16),
      base64_unit (unat b mod 16 * 4 + unat c div 64), base64_unit (unat c mod 64)]
     @ base64_encode bs"

text \<open>
  Node's decoder never throws. It reads each code unit through its low eight bits,
  accepts the standard and the URL-safe alphabet, skips every other character and stops
  at the first \<open>=\<close>; the sextets read so far give as many whole bytes as they hold.
\<close>

definition unbase64 :: "nat \<Rightarrow> nat option" where
  "unbase64 c =
     (if 65 \<le> c \<and> c \<le> 90 then Some (c - 65)
      else if 97 \<le> c \<and> c \<le> 122 then Some (c - 97 + 26)
      else if 48 \<le> c \<and> c \<le> 57 then Some (c - 48 + 52)
      else if c = 43 \<or> c = 45 then Some 62
      else if c = 47 \<or> c = 95 then Some 63
      else None)"

fun base64_sextets :: "js_string \<Rightarrow> nat list" where
  "base64_sextets [] = []"
| "base64_sextets (c # cs) =
     (if unat c mod 256 = 61 then []
      else case unbase64 (unat c mod 256) of
             Some v \<Rightarrow> v # base64_sextets cs
           | None \<Rightarrow> base64_sextets cs)"

fun sextets_bytes :: "nat list \<Rightarrow> buffer" where
  "sextets_bytes (s0 # s1 # s2 # s3 # ss) =
     [word_of_nat (s0 * 4 + s1 div 16), word_of_nat (s1 mod 16 * 16 + s2 div 4),
      word_of_nat (s2 mod 4 * 64 + s3)] @ sextets_bytes ss"
| "sextets_bytes [s0, s1, s2] =
     [word_of_nat (s0 * 4 + s1 div 16), word_of_nat (s1 mod 16 * 16 + s2 div 4)]"
| "sextets_bytes [s0, s1] = [word_of_nat (s0 * 4 + s1 div 16)]"
| "sextets_bytes ss = []"

definition base64_decode :: "js_string \<Rightarrow> buffer option" where
  "base64_decode s = Some (sextets_bytes (base64_sextets s))"

subsection \<open>Hex: \<open>digest('hex')\<close> and \<open>Buffer.from(string, 'hex')\<close>\<close>

definition hex_unit :: "nat \<Rightarrow> code_unit" where
  "hex_unit n = (if n < 10 then word_of_nat (48 + n) else word_of_nat (97 + (n - 10)))"

definition hex_encode :: "buffer \<Rightarrow> js_string" where
  "hex_encode bs = concat (map (\<lambda>b. [hex_unit (unat b div 16), hex_unit (unat b mod 16)]) bs)"

text \<open>
  Node's hex decoder reads pairs of hex digits (either case, each code unit through its
  low eight bits) and stops at the first pair that is not two hex digits; a last single
  character is dropped.
\<close>

definition unhex :: "nat \<Rightarrow> nat option" where
  "unhex c =
     (if 48 \<le> c \<and> c \<le> 57 then Some (c - 48)
      else if 97 \<le> c \<and> c \<le> 102 then Some (c - 97 + 10)
      else if 65 \<le> c \<and> c \<le> 70 then Some (c - 65 + 10)
      else None)"

fun hex_decode :: "js_string \<Rightarrow> buffer" where
  "hex_decode (c # d # cs) =
     (case (unhex (unat c mod 256), unhex (unat d mod 256)) of
        (Some a, Some b) \<Rightarrow> word_of_nat (a * 16 + b) # hex_decode cs
      | _ \<Rightarrow> [])"
| "hex_decode cs = []"

subsection \<open>String operations\<close>

text \<open>\<open>s.split(sep)\<close> for a separator of one code unit, and \<open>parts.join(sep)\<close>.\<close>

function split_unit :: "code_unit \<Rightarrow> js_string \<Rightarrow> js_string list" where
  "split_unit sep s =
     (case dropWhile (\<lambda>c. c \<noteq> sep) s of
        [] \<Rightarrow> [s]
      | _ # rest \<Rightarrow> takeWhile (\<lambda>c. c \<noteq> sep) s # split_unit sep rest)"
  by pat_completeness auto
termination
proof (relation "measure (\<lambda>(sep, s). length s)")
  show "wf (measure (\<lambda>(sep, s). length s))" by simp
next
  fix sep :: code_unit and s :: js_string and x rest
  assume "dropWhile (\<lambda>c. c \<noteq> sep) s = x # rest"
  then have "length (x # rest) \<le> length s"
    by (metis length_dropWhile_le)
  then show "((sep, rest), (sep, s)) \<in> measure (\<lambda>(sep, s). length s)" by simp
qed

declare split_unit.simps [simp del]

fun join_strings :: "js_string \<Rightarrow> js_string list \<Rightarrow> js_string" where
  "join_strings sep [] = []"
| "join_strings sep [x] = x"
| "join_strings sep (x # y # ys) = x @ sep @ join_strings sep (y # ys)"

text \<open>\<open>s.lastIndexOf(c)\<close> for one code unit \<open>c\<close>: \<open>- 1\<close> when \<open>c\<close> does not occur.\<close>

fun last_index_scan :: "int \<Rightarrow> int \<Rightarrow> js_string \<Rightarrow> code_unit \<Rightarrow> int" where
  "last_index_scan i found [] c = found"
| "last_index_scan i found (x # xs) c = last_index_scan (i + 1) (if x = c then i else found) xs c"

definition lastIndexOf :: "js_string \<Rightarrow> code_unit \<Rightarrow> int" where
  "lastIndexOf s c = last_index_scan 0 (- 1) s c"

text \<open>\<open>s.slice(0, i)\<close> and \<open>s.slice(i)\<close> for an index \<open>0 \<le> i\<close>.\<close>

definition slice_to :: "js_string \<Rightarrow> int \<Rightarrow> js_string" where
  "slice_to s i = take (nat i) s"

definition slice_from :: "js_string \<Rightarrow> int \<Rightarrow> js_string" where
  "slice_from s i = drop (nat i) s"

section \<open>Session tokens (lib/session.js)\<close>

text \<open>
  HMAC-SHA256 belongs to Node's \<open>crypto\<close> module, not to this library: \<open>hmac key msg\<close>
  stands for \<open>crypto.createHmac('sha256', key).update(msg).digest()\<close> on the UTF-8
  bytes of both strings, and is an argument of every function that signs. The clock
  reading \<open>Date.now()\<close> is an argument as well.
\<close>

type_synonym hmac_function = "buffer \<Rightarrow> buffer \<Rightarrow> buffer"

definition generateSessionToken ::
  "hmac_function \<Rightarrow> int \<Rightarrow> js_string \<Rightarrow> js_string \<Rightarrow> string + js_string" where
  "generateSessionToken hmac now session_id secret =
     (if session_id = [] then Inl ''sessionId must be a non-empty string''
      else if secret = [] then Inl ''secret must be a non-empty string''
      else let timestamp_text = number_to_string now;
               data = session_id @ [0x3A] @ timestamp_text;
               signature = hex_encode (hmac (utf8_encode secret) (utf8_encode data))
           in Inr (base64_encode (utf8_encode data) @ [0x2E] @ signature))"

record validation_result =
  valid :: bool
  sessionId :: "js_string option"
  timestamp :: "int option"
  error :: "string option"

definition invalid_token :: "string \<Rightarrow> validation_result" where
  "invalid_token message =
     \<lparr> valid = False, sessionId = None, timestamp = None, error = Some message \<rparr>"

text \<open>\<open>crypto.timingSafeEqual\<close>, called on buffers of equal length only.\<close>

definition timingSafeEqual :: "buffer \<Rightarrow> buffer \<Rightarrow> bool" where
  "timingSafeEqual a b \<longleftrightarrow> a = b"

text \<open>
  \<open>validateSessionToken\<close>. The \<open>try\<close> block is the \<open>case\<close> on \<open>base64_decode\<close>: its
  \<open>None\<close> branch is the \<open>catch\<close>.
\<close>

definition validateSessionToken ::
  "hmac_function \<Rightarrow> js_string \<Rightarrow> js_string \<Rightarrow> validation_result" where
  "validateSessionToken hmac token secret =
     (if token = [] then invalid_token ''Token must be a non-empty string''
      else if secret = [] then invalid_token ''Secret must be a non-empty string''
      else let parts = split_unit 0x2E token in
        if length parts \<noteq> 2 then invalid_token ''Invalid token format''
        else let encodedData = parts ! 0; signature = parts ! 1 in
          case base64_decode encodedData of
            None \<Rightarrow> invalid_token ''Invalid base64 encoding''
          | Some decoded \<Rightarrow>
              let data = utf8_decode decoded;
                  expectedSignature = hex_encode (hmac (utf8_encode secret) (utf8_encode data));
                  signatureBuffer = hex_decode signature;
                  expectedBuffer = hex_decode expectedSignature
              in if length signatureBuffer \<noteq> length expectedBuffer
                    \<or> \<not> timingSafeEqual signatureBuffer expectedBuffer
                 then invalid_token ''Invalid signature''
                 else let colonIndex = lastIndexOf data 0x3A in
                   if colonIndex = - 1 then invalid_token ''Invalid token data format''
                   else case parseInt (slice_from data (colonIndex + 1)) of
                          None \<Rightarrow> invalid_token ''Invalid timestamp''
                        | Some ts \<Rightarrow>
                            \<lparr> valid = True, sessionId = Some (slice_to data colonIndex),
                              timestamp = Some ts, error = None \<rparr>)"

record expiry_result =
  expired :: bool
  ageMs :: "int option"
  expiry_error :: "string option"

text \<open>
  \<open>isSessionTokenExpired\<close>. A valid result always carries a timestamp; without one the
  subtraction would give \<open>NaN\<close>, which is not greater than anything.
\<close>

definition isSessionTokenExpired ::
  "hmac_function \<Rightarrow> int \<Rightarrow> js_string \<Rightarrow> js_string \<Rightarrow> int \<Rightarrow> expiry_result" where
  "isSessionTokenExpired hmac now token secret maxAgeMs =
     (let validation = validateSessionToken hmac token secret in
      if \<not> valid validation
      then \<lparr> expired = True, ageMs = None, expiry_error = error validation \<rparr>
      else case timestamp validation of
             Some ts \<Rightarrow>
               \<lparr> expired = (now - ts > maxAgeMs), ageMs = Some (now - ts), expiry_error = None \<rparr>
           | None \<Rightarrow> \<lparr> expired = False, ageMs = None, expiry_error = None \<rparr>)"

text \<open>
  The theorems about tokens hold for every function \<open>hmac\<close>. Where a closed instance
  needs one, \<open>sample_hmac\<close> stands in for HMAC-SHA256: a 32-byte value that depends on
  the key and the message. Nothing is claimed about it as a MAC.
\<close>

definition sample_hmac :: hmac_function where
  "sample_hmac key msg = take 32 (key @ msg @ replicate 32 0)"

text \<open>
  HMAC itself (RFC 2104) over a hash function \<open>H\<close> with blocks of 64 bytes, as SHA-256
  has: a key longer than a block is hashed first, the key is padded with zero bytes to a
  block, and \<open>H\<close> is applied twice, to the key XOR-ed with the inner pad \<open>0x36\<close>
  followed by the message, and to the key XOR-ed with the outer pad \<open>0x5C\<close> followed by
  the inner digest. \<open>hmac_with H\<close> is the function \<open>hmac\<close> above when \<open>H\<close> is SHA-256;
  \<open>sample_hash\<close> stands in for it in a closed instance.
\<close>

type_synonym hash_function = "buffer \<Rightarrow> buffer"

definition hmac_block_key :: "hash_function \<Rightarrow> buffer \<Rightarrow> buffer" where
  "hmac_block_key H key =
     (let k = (if length key > 64 then H key else key) in k @ replicate (64 - length k) 0)"

definition hmac_inner :: "hash_function \<Rightarrow> buffer \<Rightarrow> buffer \<Rightarrow> buffer" where
  "hmac_inner H key msg = map (\<lambda>b. xor b 0x36) (hmac_block_key H key) @ msg"

definition hmac_outer :: "hash_function \<Rightarrow> buffer \<Rightarrow> buffer \<Rightarrow> buffer" where
  "hmac_outer H key msg =
     map (\<lambda>b. xor b 0x5C) (hmac_block_key H key) @ H (hmac_inner H key msg)"

definition hmac_with :: "hash_function \<Rightarrow> hmac_function" where
  "hmac_with H key msg = H (hmac_outer H key msg)"

definition sample_hash :: hash_function where
  "sample_hash msg = take 32 (msg @ replicate 32 0)"

section \<open>Session environment files (lib/env-file.js)\<close>

text \<open>
  The values a credentials object may hold, and \<open>ToString\<close> as a template literal
  applies it.
\<close>

datatype js_value = JUndefined | JNull | JString js_string | JNumber int | JBoolean bool

definition to_string :: "js_value \<Rightarrow> js_string" where
  "to_string v =
     (case v of
        JUndefined \<Rightarrow> js ''undefined''
      | JNull \<Rightarrow> js ''null''
      | JString s \<Rightarrow> s
      | JNumber n \<Rightarrow> number_to_string n
      | JBoolean b \<Rightarrow> (if b then js ''true'' else js ''false''))"

text \<open>
  An ordinary object is the list of its own enumerable string-keyed properties in the
  order of their creation. \<open>Object.entries\<close> lists the properties whose key is an array
  index (a canonical decimal numeral below \<open>2^32 - 1 = 0xFFFFFFFF\<close>) first, in ascending numeric
  order, and then the other properties in creation order.
\<close>

type_synonym js_object = "(js_string \<times> js_value) list"

definition array_index :: "js_string \<Rightarrow> int option" where
  "array_index k =
     (if k \<noteq> [] \<and> list_all is_digit k \<and> (k = [0x30] \<or> hd k \<noteq> 0x30)
         \<and> digits_value k < 0xFFFFFFFF
      then Some (digits_value k) else None)"

definition object_entries :: "js_object \<Rightarrow> (js_string \<times> js_value) list" where
  "object_entries obj =
     sort_key (\<lambda>e. case array_index (fst e) of Some i \<Rightarrow> i | None \<Rightarrow> 0)
       (filter (\<lambda>e. array_index (fst e) \<noteq> None) obj)
     @ filter (\<lambda>e. array_index (fst e) = None) obj"

text \<open>The content of the file: lines 216 to 221.\<close>

definition env_content :: "js_object \<Rightarrow> js_string" where
  "env_content credentials =
     join_strings [0x0A]
       (map (\<lambda>(key, v). key @ [0x3D] @ to_string v)
         (filter (\<lambda>(key, v). v \<noteq> JUndefined \<and> v \<noteq> JNull \<and> v \<noteq> JString [])
           (object_entries credentials)))
     @ [0x0A]"

text \<open>
  The file system is a map from path to file. \<open>fs.mkdirSync\<close> and \<open>fs.writeFileSync\<close>
  succeed or throw as the environment decides (\<open>Thrown code message\<close>); \<open>path.join\<close>
  is Node's and is an argument. A file that \<open>writeFileSync\<close> creates gets the mode
  passed to it (octal 600 is \<open>0x180\<close>); a file that exists keeps its mode.
\<close>

record file_node =
  content :: js_string
  mode :: nat

type_synonym file_system = "js_string \<Rightarrow> file_node option"

datatype fs_outcome = Done | Thrown string string

record env_file_options =
  opt_sessionId :: js_string
  opt_containerPath :: js_string
  opt_hostPath :: js_string
  opt_credentials :: "js_object option"

record env_file =
  containerPath :: js_string
  hostPath :: js_string

definition createSessionEnvFile ::
  "(js_string \<Rightarrow> js_string \<Rightarrow> js_string) \<Rightarrow> fs_outcome \<Rightarrow> fs_outcome \<Rightarrow>
   env_file_options \<Rightarrow> file_system \<Rightarrow> string + (env_file \<times> file_system)" where
  "createSessionEnvFile path_join mkdir_outcome write_outcome options fs =
     (if opt_sessionId options = [] then Inl ''sessionId must be a non-empty string''
      else if opt_containerPath options = [] then Inl ''containerPath must be a non-empty string''
      else if opt_hostPath options = [] then Inl ''hostPath must be a non-empty string''
      else case opt_credentials options of
        None \<Rightarrow> Inl ''credentials must be an object''
      | Some credentials \<Rightarrow>
          let filename = js ''session-'' @ opt_sessionId options @ js ''.env'';
              fullContainerPath = path_join (opt_containerPath options) filename;
              fullHostPath = path_join (opt_hostPath options) filename;
              envContent = env_content credentials
          in case mkdir_outcome of
               Thrown code message \<Rightarrow>
                 if code \<noteq> ''EEXIST''
                 then Inl (''Failed to create env directory: '' @ message)
                 else (case write_outcome of
                         Thrown _ message' \<Rightarrow> Inl (''Failed to write env file: '' @ message')
                       | Done \<Rightarrow>
                           Inr (\<lparr> containerPath = fullContainerPath, hostPath = fullHostPath \<rparr>,
                                fs(fullContainerPath \<mapsto>
                                  \<lparr> content = envContent,
                                    mode = (case fs fullContainerPath of
                                              Some f \<Rightarrow> mode f | None \<Rightarrow> 0x180) \<rparr>)))
             | Done \<Rightarrow>
                 (case write_outcome of
                    Thrown _ message' \<Rightarrow> Inl (''Failed to write env file: '' @ message')
                  | Done \<Rightarrow>
                      Inr (\<lparr> containerPath = fullContainerPath, hostPath = fullHostPath \<rparr>,
                           fs(fullContainerPath \<mapsto>
                             \<lparr> content = envContent,
                               mode = (case fs fullContainerPath of
                                         Some f \<Rightarrow> mode f | None \<Rightarrow> 0x180) \<rparr>))))"

text \<open>
  Where a closed instance needs them: \<open>sample_join\<close> stands in for \<open>path.join\<close> on a
  directory and a plain file name, and \<open>sample_options\<close> are the options of the example
  in the source, with an empty and an undefined credential added.
\<close>

definition sample_join :: "js_string \<Rightarrow> js_string \<Rightarrow> js_string" where
  "sample_join dir name = dir @ [0x2F] @ name"

definition sample_options :: env_file_options where
  "sample_options =
     \<lparr> opt_sessionId = js ''abc-123'', opt_containerPath = js ''/run/session-env'',
       opt_hostPath = js ''/tmp/session-env'',
       opt_credentials = Some
         [(js ''API_TOKEN'', JString (js ''secret-token'')), (js ''EMPTY'', JString []),
          (js ''MISSING'', JUndefined), (js ''API_EMAIL'', JString (js ''user@example.com''))] \<rparr>"

section \<open>Facts about the map operations\<close>

lemma map_get_map_set: "map_get (map_set k v m) k' = (if k' = k then Some v else map_get m k')"
  by (induction m) (auto simp: map_get_def)

lemma map_get_map_delete:
  "map_get (map_delete k m) k' = (if k' = k then None else map_get m k')"
  by (induction m) (auto simp: map_get_def map_delete_def)

lemma map_get_filter:
  "map_get m k = Some v \<Longrightarrow> P (k, v) \<Longrightarrow> map_get (filter P m) k = Some v"
  by (induction m) (auto simp: map_get_def split: if_splits)

lemma map_get_filter_None: "map_get m k = None \<Longrightarrow> map_get (filter P m) k = None"
  by (induction m) (auto simp: map_get_def split: if_splits)

lemma ceil_seconds_ceiling: "ceil_seconds ms = \<lceil>real_of_int ms / 1000\<rceil>"
  unfolding ceil_seconds_def using ceiling_divide_eq_div [where ?'a = real, of ms 1000] by simp

section \<open>Rate limiter: properties\<close>

subsection \<open>A blocked key\<close>

lemma distinct_map_set: "distinct (map fst m) \<Longrightarrow> distinct (map fst (map_set k v m))"
proof (induction m)
  case Nil
  then show ?case by simp
next
  case (Cons e es)
  have "fst ` set (map_set k v es) \<subseteq> insert k (fst ` set es)"
    by (induction es) auto
  with Cons show ?case by auto
qed

lemma distinct_map_delete: "distinct (map fst m) \<Longrightarrow> distinct (map fst (map_delete k m))"
  by (simp add: map_delete_def distinct_map_filter)

lemma map_get_Some_iff: "distinct (map fst m) \<Longrightarrow> map_get m k = Some v \<longleftrightarrow> (k, v) \<in> set m"
  by (simp add: map_get_def)

lemma check_found:
  assumes "map_get (records L) key = Some r"
      and "now \<le> resetAt r"
      and "map_size (records L) \<le> cleanupThreshold L \<or> sweep_now \<le> resetAt r"
  shows "check L now sweep_now key increment =
     (let L2 = (if map_size (records L) > cleanupThreshold L then cleanup sweep_now L else L)
      in if count r \<ge> maxAttempts L
         then (\<lparr> allowed = False, remaining = 0,
                     retryAfter = Some (ceil_seconds (resetAt r - now)) \<rparr>, L2)
             else if increment
             then (\<lparr> allowed = True, remaining = maxAttempts L - (count r + 1),
                     retryAfter = None \<rparr>,
                   L2\<lparr> records := map_set key (r\<lparr> count := count r + 1 \<rparr>) (records L2) \<rparr>)
             else (\<lparr> allowed = True, remaining = maxAttempts L - count r,
                     retryAfter = None \<rparr>, L2))"
proof -
  have "map_get (records (cleanup sweep_now L)) key = Some r" if "sweep_now \<le> resetAt r"
    using that assms(1) by (simp add: cleanup_def map_get_filter)
  then show ?thesis
  using assms by (auto simp: check_def Let_def cleanup_def)
qed

text \<open>
  Claim C7. When \<open>check(key)\<close> finds a live record (not expired at the call's clock
  reading, and not removed by the sweep) whose count has reached \<open>maxAttempts\<close>, the
  result is \<open>allowed = false\<close>, \<open>remaining = 0\<close> and
  \<open>retryAfter = ceil((resetAt - now) / 1000)\<close>; the record stays as it was, and the
  limiter changes only by the sweep, if the sweep ran.
\<close>

theorem check_blocked:
  assumes "map_get (records L) key = Some r"
      and "now \<le> resetAt r"
      and "map_size (records L) \<le> cleanupThreshold L \<or> sweep_now \<le> resetAt r"
      and "maxAttempts L \<le> count r"
  shows "fst (check L now sweep_now key increment) =
           \<lparr> allowed = False, remaining = 0,
             retryAfter = Some \<lceil>real_of_int (resetAt r - now) / 1000\<rceil> \<rparr>
       \<and> map_get (records (snd (check L now sweep_now key increment))) key = Some r
       \<and> snd (check L now sweep_now key increment) =
           (if map_size (records L) > cleanupThreshold L then cleanup sweep_now L else L)"
proof -
  have "map_get (records (cleanup sweep_now L)) key = Some r" if "sweep_now \<le> resetAt r"
    using that assms(1) by (simp add: cleanup_def map_get_filter)
  then show ?thesis
    using assms by (auto simp: check_found ceil_seconds_ceiling)
qed


theorem check_blocked_witness:
  "fst (check \<lparr> windowMs = 60000, maxAttempts = 2, cleanupThreshold = 1000,
        records = [(''ip-2'', \<lparr> count = 2, resetAt = 61000 \<rparr>)] \<rparr> 1500 1500 ''ip-2'' True)
     = \<lparr> allowed = False, remaining = 0, retryAfter = Some 60 \<rparr>
   \<and> map_get (records (snd (check \<lparr> windowMs = 60000, maxAttempts = 2, cleanupThreshold = 1000,
        records = [(''ip-2'', \<lparr> count = 2, resetAt = 61000 \<rparr>)] \<rparr> 1500 1500 ''ip-2'' True)))
        ''ip-2'' = Some \<lparr> count = 2, resetAt = 61000 \<rparr>"
proof -
  define Lc :: "string rate_limiter" where
    "Lc = \<lparr> windowMs = 60000, maxAttempts = 2, cleanupThreshold = 1000,
        records = [(''ip-2'', \<lparr> count = 2, resetAt = 61000 \<rparr>)] \<rparr>"
  define r where "r = \<lparr> count = 2, resetAt = 61000 \<rparr>"
  have h: "map_get (records Lc) ''ip-2'' = Some r" "(1500::int) \<le> resetAt r"
    "map_size (records Lc) \<le> cleanupThreshold Lc \<or> (1500::int) \<le> resetAt r"
    "maxAttempts Lc \<le> count r"
    by (simp_all add: Lc_def r_def map_get_def)
  have c: "\<lceil>real_of_int (resetAt r - 1500) / 1000\<rceil> = 60"
    by (simp add: r_def)
  note B = check_blocked [OF h, of True, unfolded c]
  from B [THEN conjunct1] B [THEN conjunct2, THEN conjunct1] show ?thesis
    unfolding Lc_def r_def by (rule conjI)
qed

subsection \<open>The window\<close>

lemma cleanup_config [simp]:
  "windowMs (cleanup t L) = windowMs L" "maxAttempts (cleanup t L) = maxAttempts L"
  "cleanupThreshold (cleanup t L) = cleanupThreshold L"
  by (simp_all add: cleanup_def)

lemma check_config:
  "windowMs (snd (check L now sn key inc)) = windowMs L
   \<and> maxAttempts (snd (check L now sn key inc)) = maxAttempts L
   \<and> cleanupThreshold (snd (check L now sn key inc)) = cleanupThreshold L"
  by (simp add: check_def Let_def split: option.splits)

lemma check_absent:
  assumes "map_get (records L) key = None \<or> (\<exists>r. map_get (records L) key = Some r \<and> now > resetAt r)"
  shows "fst (check L now sn key inc) =
           \<lparr> allowed = True, remaining = maxAttempts L - 1, retryAfter = None \<rparr>
       \<and> map_get (records (snd (check L now sn key inc))) key =
           (if inc then Some \<lparr> count = 1, resetAt = now + windowMs L \<rparr> else None)"
  using assms
  by (auto simp: check_def Let_def cleanup_def map_get_map_delete map_get_filter_None
      map_get_map_set)

lemma check_live:
  assumes "map_get (records L) key = Some r"
      and "now \<le> resetAt r"
      and "map_size (records L) \<le> cleanupThreshold L \<or> sn \<le> resetAt r"
  shows "allowed (fst (check L now sn key True)) = (count r < maxAttempts L)
       \<and> map_get (records (snd (check L now sn key True))) key =
           Some (if count r < maxAttempts L then r\<lparr> count := count r + 1 \<rparr> else r)"
proof -
  have "map_get (records (cleanup sn L)) key = Some r" if "sn \<le> resetAt r"
    using that assms(1) by (simp add: cleanup_def map_get_filter)
  then show ?thesis
    using assms by (auto simp: check_found map_get_map_set Let_def)
qed

lemma length_map_set_present:
  "map_get m k = Some v' \<Longrightarrow> length (map_set k v m) = length m"
  by (induction m) (auto simp: map_get_def split: if_splits)

lemma length_map_set_le: "length (map_set k v m) \<le> Suc (length m)"
  by (induction m) auto

lemma check_size_le:
  "map_size (records (snd (check L now sn key inc))) \<le> map_size (records L) + 1"
proof -
  define L1 where "L1 = (case map_get (records L) key of
                  Some existing \<Rightarrow>
                    if now > resetAt existing
                    then L\<lparr> records := map_delete key (records L) \<rparr> else L
                | None \<Rightarrow> L)"
  define L2 where "L2 = (if map_size (records L1) > cleanupThreshold L1 then cleanup sn L1 else L1)"
  have 1: "length (records L1) \<le> length (records L)"
    by (simp add: L1_def map_delete_def split: option.splits)
  have "length (records L2) \<le> length (records L1)"
    by (simp add: L2_def cleanup_def)
  with 1 have 2: "length (records L2) \<le> length (records L)"
    by (rule le_trans [rotated])
  have c: "check L now sn key inc =
      (case map_get (records L2) key of
           None \<Rightarrow>
             (\<lparr> allowed = True, remaining = maxAttempts L2 - 1, retryAfter = None \<rparr>,
              if inc
              then L2\<lparr> records :=
                     map_set key \<lparr> count = 1, resetAt = now + windowMs L2 \<rparr> (records L2) \<rparr>
              else L2)
         | Some rcd \<Rightarrow>
             if count rcd \<ge> maxAttempts L2
             then (\<lparr> allowed = False, remaining = 0,
                     retryAfter = Some (ceil_seconds (resetAt rcd - now)) \<rparr>, L2)
             else if inc
             then (\<lparr> allowed = True, remaining = maxAttempts L2 - (count rcd + 1),
                     retryAfter = None \<rparr>,
                   L2\<lparr> records := map_set key (rcd\<lparr> count := count rcd + 1 \<rparr>) (records L2) \<rparr>)
             else (\<lparr> allowed = True, remaining = maxAttempts L2 - count rcd,
                     retryAfter = None \<rparr>, L2))"
    unfolding check_def L1_def L2_def Let_def ..
  have s: "int (length (map_set key v (records L2))) \<le> int (length (records L)) + 1" for v
    using length_map_set_le [of key v "records L2"] 2 by linarith
  show ?thesis
    unfolding c using 2 s by (simp add: map_size_def split: option.splits)
qed

lemma check_live_size:
  assumes "map_get (records L) key = Some r"
      and "now \<le> resetAt r"
      and "map_size (records L) \<le> cleanupThreshold L"
  shows "map_size (records (snd (check L now sn key inc))) = map_size (records L)"
  using assms length_map_set_present [OF assms(1)]
  by (simp add: check_found Let_def map_size_def)

lemma check_calls_live:
  assumes "map_get (records L) key = Some r"
      and "\<forall>t \<in> set ts. fst t \<le> resetAt r"
      and "map_size (records L) \<le> cleanupThreshold L \<or> (\<forall>t \<in> set ts. snd t \<le> resetAt r)"
  shows "length (fst (check_calls L key ts)) = length ts
       \<and> (\<forall>i < length ts. allowed (fst (check_calls L key ts) ! i) = (count r + int i < maxAttempts L))
       \<and> map_get (records (snd (check_calls L key ts))) key =
            Some (r\<lparr> count := (if count r < maxAttempts L
                                then min (maxAttempts L) (count r + int (length ts)) else count r) \<rparr>)
       \<and> maxAttempts (snd (check_calls L key ts)) = maxAttempts L
       \<and> windowMs (snd (check_calls L key ts)) = windowMs L
       \<and> cleanupThreshold (snd (check_calls L key ts)) = cleanupThreshold L
       \<and> (map_size (records L) \<le> cleanupThreshold L \<longrightarrow>
            map_size (records (snd (check_calls L key ts))) \<le> cleanupThreshold L)"
  using assms
proof (induction ts arbitrary: L r)
  case Nil
  then show ?case by simp
next
  case (Cons t ts)
  obtain res L' where c: "check L (fst t) (snd t) key True = (res, L')"
    by (cases "check L (fst t) (snd t) key True")
  define r' where "r' = (if count r < maxAttempts L then r\<lparr> count := count r + 1 \<rparr> else r)"
  have now: "fst t \<le> resetAt r"
    using Cons.prems(2) by simp
  have sweep: "map_size (records L) \<le> cleanupThreshold L \<or> snd t \<le> resetAt r"
    using Cons.prems(3) by auto
  have live: "allowed res = (count r < maxAttempts L)" "map_get (records L') key = Some r'"
    using check_live [OF Cons.prems(1) now sweep] c by (simp_all add: r'_def)
  have cfg: "maxAttempts L' = maxAttempts L" "windowMs L' = windowMs L"
    "cleanupThreshold L' = cleanupThreshold L"
    using check_config [of L "fst t" "snd t" key True] c by simp_all
  have size: "map_size (records L') \<le> cleanupThreshold L'"
    if "map_size (records L) \<le> cleanupThreshold L"
    using check_live_size [OF Cons.prems(1) now that, of "snd t" True] c that cfg(3) by simp
  have R: "resetAt r' = resetAt r" by (simp add: r'_def)
  have p2: "\<forall>t \<in> set ts. fst t \<le> resetAt r'"
    using Cons.prems(2) R by simp
  have p3: "map_size (records L') \<le> cleanupThreshold L' \<or> (\<forall>t \<in> set ts. snd t \<le> resetAt r')"
    using Cons.prems(3) size R by auto
  from Cons.IH [OF live(2) p2 p3]
  have IH: "length (fst (check_calls L' key ts)) = length ts"
    "\<forall>i < length ts. allowed (fst (check_calls L' key ts) ! i) = (count r' + int i < maxAttempts L)"
    "map_get (records (snd (check_calls L' key ts))) key =
            Some (r'\<lparr> count := (if count r' < maxAttempts L
                                then min (maxAttempts L) (count r' + int (length ts)) else count r') \<rparr>)"
    "maxAttempts (snd (check_calls L' key ts)) = maxAttempts L"
    "windowMs (snd (check_calls L' key ts)) = windowMs L"
    "cleanupThreshold (snd (check_calls L' key ts)) = cleanupThreshold L"
    "map_size (records L') \<le> cleanupThreshold L \<longrightarrow>
            map_size (records (snd (check_calls L' key ts))) \<le> cleanupThreshold L"
    by (simp_all add: cfg)
  obtain rs L'' where cc: "check_calls L' key ts = (rs, L'')"
    by (cases "check_calls L' key ts")
  have eq: "check_calls L key (t # ts) = (res # rs, L'')"
    by (simp add: c cc)
  have 1: "length (fst (check_calls L key (t # ts))) = length (t # ts)"
    using IH(1) cc eq by simp
  have 2: "allowed (fst (check_calls L key (t # ts)) ! i) = (count r + int i < maxAttempts L)"
    if "i < length (t # ts)" for i
  proof (cases i)
    case 0
    then show ?thesis using eq live(1) by simp
  next
    case (Suc j)
    then have "j < length ts" using that by simp
    then have "allowed (rs ! j) = (count r' + int j < maxAttempts L)"
      using IH(2) cc by simp
    then show ?thesis using eq Suc by (auto simp: r'_def)
  qed
  have 3: "map_get (records (snd (check_calls L key (t # ts)))) key =
            Some (r\<lparr> count := (if count r < maxAttempts L
                 then min (maxAttempts L) (count r + int (length (t # ts))) else count r) \<rparr>)"
    using IH(3) cc eq by (auto simp: r'_def min_def)
  have 4: "maxAttempts (snd (check_calls L key (t # ts))) = maxAttempts L"
    "windowMs (snd (check_calls L key (t # ts))) = windowMs L"
    "cleanupThreshold (snd (check_calls L key (t # ts))) = cleanupThreshold L"
    using IH(4,5,6) cc eq by simp_all
  have 5: "map_size (records L) \<le> cleanupThreshold L \<longrightarrow>
            map_size (records (snd (check_calls L key (t # ts)))) \<le> cleanupThreshold L"
    using IH(7) size cfg(3) cc eq by simp
  from 1 2 3 4 5 show ?case by blast
qed

lemma check_calls_append:
  "check_calls L key (xs @ ys) =
     (fst (check_calls L key xs) @ fst (check_calls (snd (check_calls L key xs)) key ys),
      snd (check_calls (snd (check_calls L key xs)) key ys))"
  by (induction xs arbitrary: L) (simp_all add: split_beta Let_def)

lemma check_calls_window:
  assumes "0 < windowMs L"
      and "map_get (records L) key = None \<or>
           (\<exists>r. map_get (records L) key = Some r \<and> fst t_first > resetAt r)"
      and "int (length ts) + 1 = maxAttempts L"
      and "\<forall>t \<in> set ts. fst t \<le> fst t_first + windowMs L"
      and "map_size (records L) < cleanupThreshold L
           \<or> (\<forall>t \<in> set ts. snd t \<le> fst t_first + windowMs L)"
  shows "map allowed (fst (check_calls L key (t_first # ts))) = replicate (nat (maxAttempts L)) True
       \<and> map_get (records (snd (check_calls L key (t_first # ts)))) key =
           Some \<lparr> count = maxAttempts L, resetAt = fst t_first + windowMs L \<rparr>
       \<and> maxAttempts (snd (check_calls L key (t_first # ts))) = maxAttempts L
       \<and> windowMs (snd (check_calls L key (t_first # ts))) = windowMs L
       \<and> cleanupThreshold (snd (check_calls L key (t_first # ts))) = cleanupThreshold L
       \<and> (map_size (records L) < cleanupThreshold L \<longrightarrow>
            map_size (records (snd (check_calls L key (t_first # ts)))) \<le> cleanupThreshold L)"
proof -
  define r1 where "r1 = \<lparr> count = 1, resetAt = fst t_first + windowMs L \<rparr>"
  obtain res L1 where c: "check L (fst t_first) (snd t_first) key True = (res, L1)"
    by (cases "check L (fst t_first) (snd t_first) key True")
  have first: "allowed res" "map_get (records L1) key = Some r1"
    using check_absent [OF assms(2), of "snd t_first" True] c by (simp_all add: r1_def)
  have cfg: "maxAttempts L1 = maxAttempts L" "windowMs L1 = windowMs L"
    "cleanupThreshold L1 = cleanupThreshold L"
    using check_config [of L "fst t_first" "snd t_first" key True] c by simp_all
  have size: "map_size (records L1) \<le> cleanupThreshold L1"
    if "map_size (records L) < cleanupThreshold L"
    using check_size_le [of L "fst t_first" "snd t_first" key True] c that cfg(3) by simp
  have p2: "\<forall>t \<in> set ts. fst t \<le> resetAt r1"
    using assms(4) by (simp add: r1_def)
  have p3: "map_size (records L1) \<le> cleanupThreshold L1 \<or> (\<forall>t \<in> set ts. snd t \<le> resetAt r1)"
    using assms(5) size by (auto simp: r1_def)
  from check_calls_live [OF first(2) p2 p3]
  have live: "length (fst (check_calls L1 key ts)) = length ts"
    "\<forall>i < length ts. allowed (fst (check_calls L1 key ts) ! i) = (1 + int i < maxAttempts L)"
    "map_get (records (snd (check_calls L1 key ts))) key =
       Some (r1\<lparr> count := (if 1 < maxAttempts L
                            then min (maxAttempts L) (1 + int (length ts)) else 1) \<rparr>)"
    "maxAttempts (snd (check_calls L1 key ts)) = maxAttempts L"
    "windowMs (snd (check_calls L1 key ts)) = windowMs L"
    "cleanupThreshold (snd (check_calls L1 key ts)) = cleanupThreshold L"
    "map_size (records L1) \<le> cleanupThreshold L \<longrightarrow>
            map_size (records (snd (check_calls L1 key ts))) \<le> cleanupThreshold L"
    by (simp_all add: cfg r1_def)
  have eq: "check_calls L key (t_first # ts) =
      (res # fst (check_calls L1 key ts), snd (check_calls L1 key ts))"
    by (simp add: c split_beta)
  have len: "nat (maxAttempts L) = Suc (length ts)"
    using assms(3) by linarith
  have "\<forall>i < length ts. allowed (fst (check_calls L1 key ts) ! i)"
    using live(2) assms(3) by auto
  then have "map allowed (fst (check_calls L1 key ts)) = replicate (length ts) True"
    using live(1) by (simp add: list_eq_iff_nth_eq)
  then have 1: "map allowed (fst (check_calls L key (t_first # ts))) =
      replicate (nat (maxAttempts L)) True"
    using eq first(1) len by simp
  have 2: "map_get (records (snd (check_calls L key (t_first # ts)))) key =
           Some \<lparr> count = maxAttempts L, resetAt = fst t_first + windowMs L \<rparr>"
    using live(3) eq assms(3) by (auto simp: r1_def min_def)
  have 3: "map_size (records L) < cleanupThreshold L \<longrightarrow>
            map_size (records (snd (check_calls L key (t_first # ts)))) \<le> cleanupThreshold L"
    using live(7) size cfg(3) eq by simp
  from 1 2 3 live(4,5,6) eq show ?thesis by simp
qed

text \<open>
  Claim C2, amended. A limiter with \<open>maxAttempts = N\<close> and a key with no live record:
  \<open>t_first\<close> is the first call, \<open>ts\<close> the next \<open>N - 1\<close> calls, \<open>t_next\<close> the call
  after them; every call has two clock readings, its own and the one of the sweep. A call
  lies within the window that the first call opens (\<open>resetAt = now + windowMs\<close> of the
  first call) when its own clock reading is at most \<open>resetAt\<close> and the sweep, if it
  runs, reads a clock that is at most \<open>resetAt\<close> too; the sweep never runs when the
  limiter starts with fewer than \<open>cleanupThreshold\<close> records. When the calls in \<open>ts\<close>
  lie within the window, the first \<open>N\<close> calls are allowed; the next call is blocked when
  it lies within the window too, and allowed again when its clock reading is past
  \<open>resetAt\<close>.
\<close>

theorem rate_limiter_window:
  assumes "0 < windowMs L"
      and "map_get (records L) key = None
           \<or> (\<exists>r. map_get (records L) key = Some r \<and> fst t_first > resetAt r)"
      and "int (length ts) + 1 = maxAttempts L"
      and "\<forall>t \<in> set ts. fst t \<le> fst t_first + windowMs L"
      and "map_size (records L) < cleanupThreshold L
           \<or> (\<forall>t \<in> set ts. snd t \<le> fst t_first + windowMs L)"
  shows "(fst t_next \<le> fst t_first + windowMs L
            \<and> (map_size (records L) < cleanupThreshold L \<or> snd t_next \<le> fst t_first + windowMs L) \<longrightarrow>
            map allowed (fst (check_calls L key (t_first # ts @ [t_next]))) =
              replicate (nat (maxAttempts L)) True @ [False])
       \<and> (fst t_next > fst t_first + windowMs L \<longrightarrow>
            map allowed (fst (check_calls L key (t_first # ts @ [t_next]))) =
              replicate (nat (maxAttempts L)) True @ [True])"
proof -
  define L' where "L' = snd (check_calls L key (t_first # ts))"
  define rN where "rN = \<lparr> count = maxAttempts L, resetAt = fst t_first + windowMs L \<rparr>"
  have w: "map allowed (fst (check_calls L key (t_first # ts))) = replicate (nat (maxAttempts L)) True"
    "map_get (records L') key = Some rN" "maxAttempts L' = maxAttempts L"
    "cleanupThreshold L' = cleanupThreshold L"
    "map_size (records L) < cleanupThreshold L \<longrightarrow> map_size (records L') \<le> cleanupThreshold L"
    using check_calls_window [OF assms] by (simp_all add: L'_def rN_def)
  have split: "fst (check_calls L key (t_first # ts @ [t_next])) =
      fst (check_calls L key (t_first # ts)) @ [fst (check L' (fst t_next) (snd t_next) key True)]"
    using check_calls_append [of L key "t_first # ts" "[t_next]"]
    by (simp add: L'_def split_beta)
  have blocked: "\<not> allowed (fst (check L' (fst t_next) (snd t_next) key True))"
    if "fst t_next \<le> fst t_first + windowMs L"
       "map_size (records L) < cleanupThreshold L \<or> snd t_next \<le> fst t_first + windowMs L"
  proof -
    have "map_size (records L') \<le> cleanupThreshold L' \<or> snd t_next \<le> resetAt rN"
      using that(2) w(4,5) by (auto simp: rN_def)
    from check_live [OF w(2) _ this, of "fst t_next"] that(1) w(3) show ?thesis
      by (simp add: rN_def)
  qed
  have again: "allowed (fst (check L' (fst t_next) (snd t_next) key True))"
    if "fst t_next > fst t_first + windowMs L"
  proof -
    have "map_get (records L') key = None \<or>
           (\<exists>r. map_get (records L') key = Some r \<and> fst t_next > resetAt r)"
      using w(2) that by (simp add: rN_def)
    from check_absent [OF this] show ?thesis by simp
  qed
  show ?thesis using split w(1) blocked again by simp
qed

theorem rate_limiter_window_witness:
  "map allowed (fst (check_calls
      \<lparr> windowMs = 60000, maxAttempts = 2, cleanupThreshold = 1000, records = [] \<rparr>
      ''1.2.3.4'' [(1000, 1000), (1001, 1001), (1002, 1002)])) = [True, True, False]
   \<and> map allowed (fst (check_calls
      \<lparr> windowMs = 60000, maxAttempts = 2, cleanupThreshold = 1000, records = [] \<rparr>
      ''1.2.3.4'' [(1000, 1000), (1001, 1001), (61001, 61001)])) = [True, True, True]"
  using rate_limiter_window [where L = "\<lparr> windowMs = 60000, maxAttempts = 2, cleanupThreshold = 1000, records = [] \<rparr>"
      and key = "''1.2.3.4''" and ts = "[(1001, 1001)]" and t_first = "(1000, 1000)"
      and t_next = "(1002, 1002)"]
    rate_limiter_window [where L = "\<lparr> windowMs = 60000, maxAttempts = 2, cleanupThreshold = 1000, records = [] \<rparr>"
      and key = "''1.2.3.4''" and ts = "[(1001, 1001)]" and t_first = "(1000, 1000)"
      and t_next = "(61001, 61001)"]
  by (simp add: map_get_def map_size_def numeral_2_eq_2)

text \<open>
  A call whose own clock reading is before \<open>resetAt\<close> is allowed again when the sweep
  runs and reads the clock after \<open>resetAt\<close>: the sweep removes the record before
  \<open>check\<close> looks it up. Here \<open>maxAttempts = 1\<close>, the first call stores
  \<open>resetAt = 1000\<close>, and the second call reads 999, then 1001 in the sweep.
\<close>

theorem sweep_clock_counterexample:
  "map allowed (fst (check_calls
      \<lparr> windowMs = 1000, maxAttempts = 1, cleanupThreshold = 1,
        records = [(''a'', \<lparr> count = 1, resetAt = 5000 \<rparr>)] \<rparr>
      ''k'' [(0, 0), (999, 1001)])) = [True, True]
   \<and> map_get (records (snd (check_calls
      \<lparr> windowMs = 1000, maxAttempts = 1, cleanupThreshold = 1,
        records = [(''a'', \<lparr> count = 1, resetAt = 5000 \<rparr>)] \<rparr>
      ''k'' [(0, 0)]))) ''k'' = Some \<lparr> count = 1, resetAt = 1000 \<rparr>"
  by (simp add: check_def cleanup_def map_get_def map_size_def map_delete_def Let_def)

subsection \<open>Expired records\<close>

lemma check_expired_as_absent:
  assumes "map_get (records L) key = Some r" and "now > resetAt r"
  shows "check L now sn key inc = check (reset L key) now sn key inc"
  using assms by (simp add: check_def reset_def map_get_map_delete)

lemma recordFailure_record:
  "map_get (records (recordFailure L now key)) key =
     Some (case map_get (records L) key of
             None \<Rightarrow> \<lparr> count = 1, resetAt = now + windowMs L \<rparr>
           | Some r \<Rightarrow> if now > resetAt r then \<lparr> count = 1, resetAt = now + windowMs L \<rparr>
                       else r\<lparr> count := count r + 1 \<rparr>)"
  by (simp add: recordFailure_def map_get_map_set split: option.splits)

lemma check_record_after:
  assumes "map_get (records L) key = Some r" and "now > resetAt r"
  shows "map_get (records (snd (check L now sn key inc))) key =
           (if inc then Some \<lparr> count = 1, resetAt = now + windowMs L \<rparr> else None)"
proof -
  have "map_get (records L) key = None \<or> (\<exists>r. map_get (records L) key = Some r \<and> now > resetAt r)"
    using assms by simp
  from check_absent [OF this] show ?thesis by simp
qed

lemma check_swept:
  assumes "map_get (records L) key = Some r" and "now \<le> resetAt r"
      and "map_size (records L) > cleanupThreshold L" and "sn > resetAt r"
      and "distinct (map fst (records L))"
  shows "fst (check L now sn key inc) =
           \<lparr> allowed = True, remaining = maxAttempts L - 1, retryAfter = None \<rparr>"
proof -
  have "map_of (filter (\<lambda>e. \<not> sn > resetAt (snd e)) (records L)) key = None"
  proof (rule ccontr)
    assume "map_of (filter (\<lambda>e. \<not> sn > resetAt (snd e)) (records L)) key \<noteq> None"
    then obtain r' where "map_of (filter (\<lambda>e. \<not> sn > resetAt (snd e)) (records L)) key = Some r'"
      by auto
    then have m: "(key, r') \<in> set (filter (\<lambda>e. \<not> sn > resetAt (snd e)) (records L))"
      by (rule map_of_SomeD)
    then have "map_of (records L) key = Some r'"
      using assms(5) by simp
    then show False using m assms(1,4) by (simp add: map_get_def)
  qed
  then show ?thesis
    using assms by (simp add: check_def Let_def cleanup_def map_get_def)
qed

lemma swept_lookup:
  assumes "map_get m key = Some r" and "sn > resetAt r" and "distinct (map fst m)"
  shows "map_get (filter (\<lambda>e. \<not> sn > resetAt (snd e)) m) key = None"
proof (rule ccontr)
  assume "map_get (filter (\<lambda>e. \<not> sn > resetAt (snd e)) m) key \<noteq> None"
  then obtain r' where "map_of (filter (\<lambda>e. \<not> sn > resetAt (snd e)) m) key = Some r'"
    by (auto simp: map_get_def)
  then have m: "(key, r') \<in> set (filter (\<lambda>e. \<not> sn > resetAt (snd e)) m)"
    by (rule map_of_SomeD)
  then have "map_of m key = Some r'"
    using assms(3) by simp
  then show False using m assms(1,2) by (simp add: map_get_def)
qed

lemma check_live_record:
  assumes "map_get (records L) key = Some r"
      and "now \<le> resetAt r"
      and "map_size (records L) \<le> cleanupThreshold L \<or> sn \<le> resetAt r"
  shows "allowed (fst (check L now sn key inc)) = (count r < maxAttempts L)
       \<and> map_get (records (snd (check L now sn key inc))) key =
           Some (if inc \<and> count r < maxAttempts L then r\<lparr> count := count r + 1 \<rparr> else r)"
proof -
  have "map_get (records (cleanup sn L)) key = Some r" if "sn \<le> resetAt r"
    using that assms(1) by (simp add: cleanup_def map_get_filter)
  then show ?thesis
    using assms by (auto simp: check_found map_get_map_set Let_def)
qed

lemma check_swept_record:
  assumes "map_get (records L) key = Some r" and "now \<le> resetAt r"
      and "map_size (records L) > cleanupThreshold L" and "sn > resetAt r"
      and "distinct (map fst (records L))"
  shows "map_get (records (snd (check L now sn key inc))) key =
           (if inc then Some \<lparr> count = 1, resetAt = now + windowMs L \<rparr> else None)"
  using assms swept_lookup [OF assms(1,4,5)]
  by (simp add: check_def Let_def cleanup_def map_get_map_set)

text \<open>
  Claim C4, amended. A record is expired exactly when a clock reading is past
  \<open>resetAt\<close>, strictly (\<open>now > resetAt\<close>, not \<open>now \<ge> resetAt\<close>).

  \<^item> At \<open>now > resetAt\<close>, \<open>check\<close> behaves as on the limiter without that record: with
    \<open>increment\<close> it stores a fresh record \<open>{ count: 1, resetAt: now + windowMs }\<close>,
    without it the record is gone; \<open>recordFailure\<close> stores the fresh record as well.
  \<^item> At \<open>now \<le> resetAt\<close>, so also at \<open>now = resetAt\<close>, the record is live:
    \<open>recordFailure\<close> increments its count; \<open>check\<close> reads it (the call is allowed
    exactly when \<open>count < maxAttempts\<close>) and increments its count when the call is
    allowed and \<open>increment\<close> is set, unless the sweep runs and reads a clock past
    \<open>resetAt\<close>: then the sweep removes the record, and \<open>check\<close> treats it as absent.
  \<^item> So whenever \<open>check\<close> or \<open>recordFailure\<close> leaves the record with its count
    incremented, the call's clock reading was at most \<open>resetAt\<close>.
\<close>

theorem expiry_invariant:
  assumes "0 < windowMs L" and "map_get (records L) key = Some r"
  shows "(now > resetAt r \<longrightarrow>
            check L now sn key inc = check (reset L key) now sn key inc
          \<and> map_get (records (snd (check L now sn key True))) key =
              Some \<lparr> count = 1, resetAt = now + windowMs L \<rparr>
          \<and> map_get (records (snd (check L now sn key False))) key = None
          \<and> map_get (records (recordFailure L now key)) key =
              Some \<lparr> count = 1, resetAt = now + windowMs L \<rparr>)
       \<and> (map_get (records (snd (check L now sn key inc))) key = Some (r\<lparr> count := count r + 1 \<rparr>)
            \<longrightarrow> now \<le> resetAt r)
       \<and> (map_get (records (recordFailure L now key)) key = Some (r\<lparr> count := count r + 1 \<rparr>)
            \<longrightarrow> now \<le> resetAt r)
       \<and> (now \<le> resetAt r \<longrightarrow>
            map_get (records (recordFailure L now key)) key = Some (r\<lparr> count := count r + 1 \<rparr>))
       \<and> (now \<le> resetAt r \<and> (map_size (records L) \<le> cleanupThreshold L \<or> sn \<le> resetAt r) \<longrightarrow>
            allowed (fst (check L now sn key inc)) = (count r < maxAttempts L)
          \<and> map_get (records (snd (check L now sn key inc))) key =
              Some (if inc \<and> count r < maxAttempts L then r\<lparr> count := count r + 1 \<rparr> else r))
       \<and> (now \<le> resetAt r \<and> map_size (records L) > cleanupThreshold L \<and> sn > resetAt r
            \<and> distinct (map fst (records L)) \<longrightarrow>
            fst (check L now sn key inc) =
              \<lparr> allowed = True, remaining = maxAttempts L - 1, retryAfter = None \<rparr>
          \<and> map_get (records (snd (check L now sn key inc))) key =
              (if inc then Some \<lparr> count = 1, resetAt = now + windowMs L \<rparr> else None))"
proof -
  have A: "check L now sn key inc = check (reset L key) now sn key inc"
    "map_get (records (snd (check L now sn key True))) key =
              Some \<lparr> count = 1, resetAt = now + windowMs L \<rparr>"
    "map_get (records (snd (check L now sn key False))) key = None"
    "map_get (records (recordFailure L now key)) key =
              Some \<lparr> count = 1, resetAt = now + windowMs L \<rparr>"
    if "now > resetAt r"
    using that assms(2) check_expired_as_absent [of L key r now sn inc]
      check_record_after [of L key r now sn]
    by (simp_all add: recordFailure_record)
  have B: "now \<le> resetAt r"
    if "map_get (records (snd (check L now sn key inc))) key = Some (r\<lparr> count := count r + 1 \<rparr>)"
  proof (rule ccontr)
    assume "\<not> now \<le> resetAt r"
    then have e: "now > resetAt r" by simp
    have "Some (r\<lparr> count := count r + 1 \<rparr>) =
        (if inc then Some \<lparr> count = 1, resetAt = now + windowMs L \<rparr> else None)"
      using check_record_after [OF assms(2) e, of sn inc] that by simp
    then have "r\<lparr> count := count r + 1 \<rparr> = \<lparr> count = 1, resetAt = now + windowMs L \<rparr>"
      by (simp split: if_splits)
    then have "resetAt (r\<lparr> count := count r + 1 \<rparr>) =
        resetAt \<lparr> count = 1, resetAt = now + windowMs L \<rparr>"
      by (rule arg_cong)
    then show False using e assms(1) by simp
  qed
  have C: "now \<le> resetAt r"
    if "map_get (records (recordFailure L now key)) key = Some (r\<lparr> count := count r + 1 \<rparr>)"
  proof (rule ccontr)
    assume "\<not> now \<le> resetAt r"
    then have e: "now > resetAt r" by simp
    have "r\<lparr> count := count r + 1 \<rparr> = \<lparr> count = 1, resetAt = now + windowMs L \<rparr>"
      using that assms(2) e by (simp add: recordFailure_record)
    then have "resetAt (r\<lparr> count := count r + 1 \<rparr>) =
        resetAt \<lparr> count = 1, resetAt = now + windowMs L \<rparr>"
      by (rule arg_cong)
    then show False using e assms(1) by simp
  qed
  have D: "map_get (records (recordFailure L now key)) key = Some (r\<lparr> count := count r + 1 \<rparr>)"
    if "now \<le> resetAt r"
    using that assms(2) by (simp add: recordFailure_record)
  have E: "allowed (fst (check L now sn key inc)) = (count r < maxAttempts L)
          \<and> map_get (records (snd (check L now sn key inc))) key =
              Some (if inc \<and> count r < maxAttempts L then r\<lparr> count := count r + 1 \<rparr> else r)"
    if "now \<le> resetAt r" "map_size (records L) \<le> cleanupThreshold L \<or> sn \<le> resetAt r"
    using check_live_record [OF assms(2) that] .
  have F: "fst (check L now sn key inc) =
              \<lparr> allowed = True, remaining = maxAttempts L - 1, retryAfter = None \<rparr>
          \<and> map_get (records (snd (check L now sn key inc))) key =
              (if inc then Some \<lparr> count = 1, resetAt = now + windowMs L \<rparr> else None)"
    if "now \<le> resetAt r" "map_size (records L) > cleanupThreshold L" "sn > resetAt r"
      "distinct (map fst (records L))"
    using check_swept [OF assms(2) that] check_swept_record [OF assms(2) that] by (rule conjI)
  show ?thesis
  proof (intro conjI impI)
    show "check L now sn key inc = check (reset L key) now sn key inc" if "now > resetAt r"
      using that by (rule A(1))
    show "map_get (records (snd (check L now sn key True))) key =
              Some \<lparr> count = 1, resetAt = now + windowMs L \<rparr>" if "now > resetAt r"
      using that by (rule A(2))
    show "map_get (records (snd (check L now sn key False))) key = None" if "now > resetAt r"
      using that by (rule A(3))
    show "map_get (records (recordFailure L now key)) key =
              Some \<lparr> count = 1, resetAt = now + windowMs L \<rparr>" if "now > resetAt r"
      using that by (rule A(4))
    show "now \<le> resetAt r"
      if "map_get (records (snd (check L now sn key inc))) key = Some (r\<lparr> count := count r + 1 \<rparr>)"
      using that by (rule B)
    show "now \<le> resetAt r"
      if "map_get (records (recordFailure L now key)) key = Some (r\<lparr> count := count r + 1 \<rparr>)"
      using that by (rule C)
    show "map_get (records (recordFailure L now key)) key = Some (r\<lparr> count := count r + 1 \<rparr>)"
      if "now \<le> resetAt r"
      using that by (rule D)
    show "allowed (fst (check L now sn key inc)) = (count r < maxAttempts L)"
      if "now \<le> resetAt r \<and> (map_size (records L) \<le> cleanupThreshold L \<or> sn \<le> resetAt r)"
      using E that by blast
    show "map_get (records (snd (check L now sn key inc))) key =
              Some (if inc \<and> count r < maxAttempts L then r\<lparr> count := count r + 1 \<rparr> else r)"
      if "now \<le> resetAt r \<and> (map_size (records L) \<le> cleanupThreshold L \<or> sn \<le> resetAt r)"
      using E that by blast
    show "fst (check L now sn key inc) =
              \<lparr> allowed = True, remaining = maxAttempts L - 1, retryAfter = None \<rparr>"
      if "now \<le> resetAt r \<and> map_size (records L) > cleanupThreshold L \<and> sn > resetAt r
            \<and> distinct (map fst (records L))"
      using F that by blast
    show "map_get (records (snd (check L now sn key inc))) key =
              (if inc then Some \<lparr> count = 1, resetAt = now + windowMs L \<rparr> else None)"
      if "now \<le> resetAt r \<and> map_size (records L) > cleanupThreshold L \<and> sn > resetAt r
            \<and> distinct (map fst (records L))"
      using F that by blast
  qed
qed

theorem expiry_invariant_witness:
  "map_get (records (snd (check
      \<lparr> windowMs = 1000, maxAttempts = 5, cleanupThreshold = 1000,
        records = [(''k'', \<lparr> count = 3, resetAt = 100 \<rparr>)] \<rparr> 101 101 ''k'' True))) ''k''
     = Some \<lparr> count = 1, resetAt = 1101 \<rparr>
   \<and> map_get (records (recordFailure
      \<lparr> windowMs = 1000, maxAttempts = 5, cleanupThreshold = 1000,
        records = [(''k'', \<lparr> count = 3, resetAt = 100 \<rparr>)] \<rparr> 101 ''k'')) ''k''
     = Some \<lparr> count = 1, resetAt = 1101 \<rparr>
   \<and> map_get (records (snd (check
      \<lparr> windowMs = 1000, maxAttempts = 5, cleanupThreshold = 1000,
        records = [(''k'', \<lparr> count = 3, resetAt = 100 \<rparr>)] \<rparr> 100 100 ''k'' True))) ''k''
     = Some \<lparr> count = 4, resetAt = 100 \<rparr>
   \<and> map_get (records (recordFailure
      \<lparr> windowMs = 1000, maxAttempts = 5, cleanupThreshold = 1000,
        records = [(''k'', \<lparr> count = 3, resetAt = 100 \<rparr>)] \<rparr> 100 ''k'')) ''k''
     = Some \<lparr> count = 4, resetAt = 100 \<rparr>"
proof -
  define Lc :: "string rate_limiter" where
    "Lc = \<lparr> windowMs = 1000, maxAttempts = 5, cleanupThreshold = 1000,
        records = [(''k'', \<lparr> count = 3, resetAt = 100 \<rparr>)] \<rparr>"
  define r where "r = \<lparr> count = 3, resetAt = 100 \<rparr>"
  have 1: "0 < windowMs Lc"
    and 2: "map_get (records Lc) ''k'' = Some r"
    and 3: "101 > resetAt r" "(100::int) \<le> resetAt r"
    and 4: "101 + windowMs Lc = 1101"
    and 5: "map_size (records Lc) \<le> cleanupThreshold Lc" "count r < maxAttempts Lc"
      "r\<lparr> count := count r + 1 \<rparr> = \<lparr> count = 4, resetAt = 100 \<rparr>"
    by (simp_all add: Lc_def r_def map_get_def map_size_def)
  note past = expiry_invariant [OF 1 2, of 101 101 True, THEN conjunct1]
  note live = expiry_invariant [OF 1 2, of 100 100 True, THEN conjunct2, THEN conjunct2,
      THEN conjunct2]
  have a: "map_get (records (snd (check Lc 101 101 ''k'' True))) ''k''
      = Some \<lparr> count = 1, resetAt = 1101 \<rparr>"
    using past 3(1) 4 by metis
  have b: "map_get (records (recordFailure Lc 101 ''k'')) ''k''
      = Some \<lparr> count = 1, resetAt = 1101 \<rparr>"
    using past 3(1) 4 by metis
  have "map_get (records (snd (check Lc 100 100 ''k'' True))) ''k''
      = Some (if True \<and> count r < maxAttempts Lc then r\<lparr> count := count r + 1 \<rparr> else r)"
    using live [THEN conjunct2, THEN conjunct1] 3(2) 5(1) by blast
  then have c: "map_get (records (snd (check Lc 100 100 ''k'' True))) ''k''
      = Some \<lparr> count = 4, resetAt = 100 \<rparr>"
    using 5(2,3) by simp
  have "map_get (records (recordFailure Lc 100 ''k'')) ''k'' = Some (r\<lparr> count := count r + 1 \<rparr>)"
    using live [THEN conjunct1] 3(2) by blast
  then have d: "map_get (records (recordFailure Lc 100 ''k'')) ''k''
      = Some \<lparr> count = 4, resetAt = 100 \<rparr>"
    using 5(3) by simp
  from a b c d show ?thesis unfolding Lc_def by simp
qed

text \<open>
  At \<open>now = resetAt\<close> the record is still live: both operations increment its count
  instead of replacing it.
\<close>

theorem expiry_boundary_counterexample:
  "map_get (records (snd (check
      \<lparr> windowMs = 1000, maxAttempts = 5, cleanupThreshold = 1000,
        records = [(''k'', \<lparr> count = 3, resetAt = 100 \<rparr>)] \<rparr> 100 100 ''k'' True))) ''k''
     = Some \<lparr> count = 4, resetAt = 100 \<rparr>
   \<and> map_get (records (recordFailure
      \<lparr> windowMs = 1000, maxAttempts = 5, cleanupThreshold = 1000,
        records = [(''k'', \<lparr> count = 3, resetAt = 100 \<rparr>)] \<rparr> 100 ''k'')) ''k''
     = Some \<lparr> count = 4, resetAt = 100 \<rparr>"
  by (simp add: check_def recordFailure_def map_get_def map_size_def Let_def)

subsection \<open>Every limiter holds each key once\<close>

lemma createRateLimiter_result:
  "createRateLimiter options = Inr L \<Longrightarrow> 0 < windowMs L \<and> 0 < maxAttempts L \<and> records L = []"
  by (auto simp: createRateLimiter_def split: if_splits)

lemma distinct_cleanup:
  "distinct (map fst (records L)) \<Longrightarrow> distinct (map fst (records (cleanup now L)))"
  by (simp add: cleanup_def distinct_map_filter)

lemma distinct_reset:
  "distinct (map fst (records L)) \<Longrightarrow> distinct (map fst (records (reset L key)))"
  by (simp add: reset_def distinct_map_delete)

lemma distinct_recordFailure:
  "distinct (map fst (records L)) \<Longrightarrow> distinct (map fst (records (recordFailure L now key)))"
  by (simp add: recordFailure_def distinct_map_set split: option.splits)

lemma distinct_check:
  assumes "distinct (map fst (records L))"
  shows "distinct (map fst (records (snd (check L now sn key inc))))"
proof -
  define L1 where "L1 = (case map_get (records L) key of
                  Some existing \<Rightarrow>
                    if now > resetAt existing
                    then L\<lparr> records := map_delete key (records L) \<rparr> else L
                | None \<Rightarrow> L)"
  define L2 where "L2 = (if map_size (records L1) > cleanupThreshold L1 then cleanup sn L1 else L1)"
  have 1: "distinct (map fst (records L1))"
    using assms by (simp add: L1_def distinct_map_delete split: option.splits)
  then have 2: "distinct (map fst (records L2))"
    by (simp add: L2_def distinct_cleanup)
  have "check L now sn key inc =
      (case map_get (records L2) key of
           None \<Rightarrow>
             (\<lparr> allowed = True, remaining = maxAttempts L2 - 1, retryAfter = None \<rparr>,
              if inc
              then L2\<lparr> records :=
                     map_set key \<lparr> count = 1, resetAt = now + windowMs L2 \<rparr> (records L2) \<rparr>
              else L2)
         | Some rcd \<Rightarrow>
             if count rcd \<ge> maxAttempts L2
             then (\<lparr> allowed = False, remaining = 0,
                     retryAfter = Some (ceil_seconds (resetAt rcd - now)) \<rparr>, L2)
             else if inc
             then (\<lparr> allowed = True, remaining = maxAttempts L2 - (count rcd + 1),
                     retryAfter = None \<rparr>,
                   L2\<lparr> records := map_set key (rcd\<lparr> count := count rcd + 1 \<rparr>) (records L2) \<rparr>)
             else (\<lparr> allowed = True, remaining = maxAttempts L2 - count rcd,
                     retryAfter = None \<rparr>, L2))"
    unfolding check_def L1_def L2_def Let_def ..
  then show ?thesis
    using 2 by (simp add: distinct_map_set split: option.splits)
qed

subsection \<open>Checking without incrementing\<close>

lemma check_only_records:
  "snd (check L now sn key False) =
     L\<lparr> records :=
       (let rs1 = (case map_get (records L) key of
                     Some r \<Rightarrow> if now > resetAt r then map_delete key (records L) else records L
                   | None \<Rightarrow> records L)
        in if map_size rs1 > cleanupThreshold L
           then filter (\<lambda>e. \<not> sn > resetAt (snd e)) rs1 else rs1) \<rparr>"
  by (simp add: check_def Let_def cleanup_def split: option.splits)

lemma filter_by_membership: "filter (\<lambda>e. e \<in> set (filter P xs)) xs = filter P xs"
  by (rule filter_cong) auto

lemma check_only_filter:
  "\<exists>P. records (snd (check L now sn key False)) = filter P (records L)"
proof -
  have I: "\<exists>P. xs = filter P xs" for xs :: "('a \<times> rl_record) list"
    by (rule exI [of _ "\<lambda>_. True"]) simp
  have F: "\<exists>P. filter Q xs = filter P xs" for Q and xs :: "('a \<times> rl_record) list"
    by blast
  have G: "\<exists>P. filter Q (filter R xs) = filter P xs"
    for Q R and xs :: "('a \<times> rl_record) list"
    by (rule exI [of _ "\<lambda>x. R x \<and> Q x"]) simp
  show ?thesis
    unfolding check_only_records
    by (cases "map_get (records L) key") (simp_all add: Let_def map_delete_def I F G)
qed

lemma check_only_sublist:
  "records (snd (check L now sn key False)) =
     filter (\<lambda>e. e \<in> set (records (snd (check L now sn key False)))) (records L)"
proof -
  from check_only_filter [of L now sn key]
  obtain P where "records (snd (check L now sn key False)) = filter P (records L)" ..
  then show ?thesis by (simp only: filter_by_membership)
qed

lemma check_only_removed:
  assumes "distinct (map fst (records L))"
      and "e \<in> set (records L)" and "e \<notin> set (records (snd (check L now sn key False)))"
  shows "now > resetAt (snd e) \<or> sn > resetAt (snd e)"
proof -
  have "(fst e, snd e) \<in> set (records L)" using assms(2) by simp
  then have "map_get (records L) (fst e) = Some (snd e)"
    using assms(1) by (simp add: map_get_def)
  then show ?thesis
    using assms(2,3) unfolding check_only_records
    by (auto simp: Let_def map_delete_def split: option.splits if_splits)
qed

lemma check_only_unchanged:
  assumes "\<forall>r. map_get (records L) key = Some r \<longrightarrow> now \<le> resetAt r"
      and "map_size (records L) \<le> cleanupThreshold L \<or>
           (\<forall>e \<in> set (records L). sn \<le> resetAt (snd e))"
  shows "snd (check L now sn key False) = L"
proof -
  have "filter (\<lambda>e. \<not> sn > resetAt (snd e)) (records L) = records L"
    if "\<forall>e \<in> set (records L). sn \<le> resetAt (snd e)"
    using that by (auto simp: filter_id_conv)
  then show ?thesis
    using assms unfolding check_only_records
    by (auto simp: Let_def split: option.splits)
qed

lemma check_only_size:
  "size_limiter (snd (check L now sn key False)) \<le> size_limiter L"
proof -
  have "length (filter (\<lambda>e. e \<in> set (records (snd (check L now sn key False)))) (records L))
      \<le> length (records L)"
    by (rule length_filter_le)
  then show ?thesis
    using check_only_sublist [of L now sn key] by (simp add: size_limiter_def map_size_def)
qed

lemma expired_entry_filter:
  assumes "distinct (map fst m)"
  shows "(case map_get m key of
            Some r \<Rightarrow> if now > resetAt r then map_delete key m else m
          | None \<Rightarrow> m)
       = filter (\<lambda>e. \<not> (fst e = key \<and> now > resetAt (snd e))) m"
proof (cases "map_get m key")
  case None
  then have "\<forall>e \<in> set m. fst e \<noteq> key"
    by (auto simp: map_get_def map_of_eq_None_iff)
  then have "filter (\<lambda>e. \<not> (fst e = key \<and> now > resetAt (snd e))) m = m"
    by (auto simp: filter_id_conv)
  with None show ?thesis by simp
next
  case (Some r)
  have same: "snd e = r" if "e \<in> set m" "fst e = key" for e
  proof -
    have "(key, snd e) \<in> set m" using that by auto
    then have "map_of m key = Some (snd e)" using assms by simp
    then show ?thesis using Some by (simp add: map_get_def)
  qed
  show ?thesis
  proof (cases "now > resetAt r")
    case True
    have "filter (\<lambda>e. \<not> (fst e = key \<and> now > resetAt (snd e))) m = filter (\<lambda>e. fst e \<noteq> key) m"
      by (rule filter_cong) (use same True in auto)
    then show ?thesis using Some True by (simp add: map_delete_def)
  next
    case False
    have "filter (\<lambda>e. \<not> (fst e = key \<and> now > resetAt (snd e))) m = m"
      unfolding filter_id_conv using same False by auto
    then show ?thesis using Some False by simp
  qed
qed

lemma check_only_exact:
  assumes "distinct (map fst (records L))"
  shows "snd (check L now sn key False) =
     L\<lparr> records :=
       (let kept = filter (\<lambda>e. \<not> (fst e = key \<and> now > resetAt (snd e))) (records L)
        in if map_size kept > cleanupThreshold L
           then filter (\<lambda>e. sn \<le> resetAt (snd e)) kept else kept) \<rparr>"
  unfolding check_only_records expired_entry_filter [OF assms] by (simp add: not_less Let_def)

lemma check_only_expired_removed:
  assumes "map_get (records L) key = Some r" and "now > resetAt r"
      and "distinct (map fst (records L))"
  shows "map_get (records (snd (check L now sn key False))) key = None
       \<and> size_limiter (snd (check L now sn key False)) < size_limiter L"
proof -
  define kept where "kept = filter (\<lambda>e. \<not> (fst e = key \<and> now > resetAt (snd e))) (records L)"
  have "(key, r) \<in> set (records L)"
    using assms(1) by (simp add: map_get_def map_of_SomeD)
  then have k: "length kept < length (records L)"
    unfolding kept_def using assms(2) by (intro length_filter_less [of "(key, r)"]) auto
  have "length (filter (\<lambda>e. sn \<le> resetAt (snd e)) kept) \<le> length kept"
    by (rule length_filter_le)
  then have f: "length (filter (\<lambda>e. sn \<le> resetAt (snd e)) kept) < length (records L)"
    using k by (rule le_less_trans)
  have "size_limiter (snd (check L now sn key False)) < size_limiter L"
    using k f unfolding check_only_exact [OF assms(3)] kept_def [symmetric]
    by (simp add: size_limiter_def map_size_def Let_def)
  then show ?thesis
    using check_record_after [OF assms(1,2), of sn False] by simp
qed

lemma check_only_sweep:
  assumes "distinct (map fst (records L))"
      and "map_size (filter (\<lambda>e. \<not> (fst e = key \<and> now > resetAt (snd e))) (records L))
             > cleanupThreshold L"
      and "e \<in> set (records (snd (check L now sn key False)))"
  shows "sn \<le> resetAt (snd e)"
  using assms(2,3) unfolding check_only_exact [OF assms(1)] by (simp add: Let_def)

text \<open>
  Claim C6, amended. \<open>check(key, false)\<close> creates no record and increments no count, but
  it removes expired records. The limiter afterwards is the limiter before with these
  records, in the same order: first the key's record is dropped if it is expired at the
  call's clock reading; then, if more than \<open>cleanupThreshold\<close> records are left, the
  sweep drops every record that is expired at its own clock reading. So \<open>size()\<close> does
  not grow; an expired record of the key is removed, and \<open>size()\<close> shrinks; after a
  sweep no record is expired at the sweep's clock reading; every removed record is
  expired at one of the two clock readings; and when the key's record is not expired and
  the sweep does not run (or finds nothing expired) the limiter is unchanged. When the
  key has no live record (none, expired, or removed by the sweep) the result is
  \<open>allowed = true\<close> with \<open>remaining = maxAttempts - 1\<close>; when it has a live record with
  \<open>count < maxAttempts\<close> the result is \<open>allowed = true\<close> with
  \<open>remaining = maxAttempts - count\<close>.
\<close>

theorem check_only_frame:
  assumes "distinct (map fst (records L))"
  shows "records (snd (check L now sn key False)) =
           filter (\<lambda>e. e \<in> set (records (snd (check L now sn key False)))) (records L)
       \<and> size_limiter (snd (check L now sn key False)) \<le> size_limiter L
       \<and> (\<forall>e \<in> set (records L). e \<notin> set (records (snd (check L now sn key False))) \<longrightarrow>
             now > resetAt (snd e) \<or> sn > resetAt (snd e))
       \<and> ((\<forall>r. map_get (records L) key = Some r \<longrightarrow> now \<le> resetAt r)
            \<and> (map_size (records L) \<le> cleanupThreshold L \<or>
                 (\<forall>e \<in> set (records L). sn \<le> resetAt (snd e)))
           \<longrightarrow> snd (check L now sn key False) = L)
       \<and> (map_get (records L) key = None \<or>
            (\<exists>r. map_get (records L) key = Some r \<and>
               (now > resetAt r \<or> map_size (records L) > cleanupThreshold L \<and> sn > resetAt r))
           \<longrightarrow> fst (check L now sn key False) =
                 \<lparr> allowed = True, remaining = maxAttempts L - 1, retryAfter = None \<rparr>)
       \<and> (\<forall>r. map_get (records L) key = Some r \<and> now \<le> resetAt r
               \<and> (map_size (records L) \<le> cleanupThreshold L \<or> sn \<le> resetAt r)
               \<and> count r < maxAttempts L
           \<longrightarrow> fst (check L now sn key False) =
                 \<lparr> allowed = True, remaining = maxAttempts L - count r, retryAfter = None \<rparr>)
       \<and> snd (check L now sn key False) =
           L\<lparr> records :=
             (let kept = filter (\<lambda>e. \<not> (fst e = key \<and> now > resetAt (snd e))) (records L)
              in if map_size kept > cleanupThreshold L
                 then filter (\<lambda>e. sn \<le> resetAt (snd e)) kept else kept) \<rparr>
       \<and> (\<forall>r. map_get (records L) key = Some r \<and> now > resetAt r
           \<longrightarrow> map_get (records (snd (check L now sn key False))) key = None
               \<and> size_limiter (snd (check L now sn key False)) < size_limiter L)
       \<and> (map_size (filter (\<lambda>e. \<not> (fst e = key \<and> now > resetAt (snd e))) (records L))
              > cleanupThreshold L
           \<longrightarrow> (\<forall>e \<in> set (records (snd (check L now sn key False))). sn \<le> resetAt (snd e)))"
proof -
  have 5: "fst (check L now sn key False) =
                 \<lparr> allowed = True, remaining = maxAttempts L - 1, retryAfter = None \<rparr>"
    if "map_get (records L) key = None \<or>
            (\<exists>r. map_get (records L) key = Some r \<and>
               (now > resetAt r \<or> map_size (records L) > cleanupThreshold L \<and> sn > resetAt r))"
    using that
  proof (elim disjE exE conjE)
    assume "map_get (records L) key = None"
    then show ?thesis using check_absent [of L key now sn False] by simp
  next
    fix r assume "map_get (records L) key = Some r" "now > resetAt r"
    then show ?thesis using check_absent [of L key now sn False] by simp
  next
    fix r assume m: "map_get (records L) key = Some r"
      "map_size (records L) > cleanupThreshold L" "sn > resetAt r"
    show ?thesis
    proof (cases "now > resetAt r")
      case True
      then show ?thesis using m(1) check_absent [of L key now sn False] by simp
    next
      case False
      then have "now \<le> resetAt r" by simp
      from check_swept [OF m(1) this m(2) m(3) assms] show ?thesis .
    qed
  qed
  have 6: "fst (check L now sn key False) =
                 \<lparr> allowed = True, remaining = maxAttempts L - count r, retryAfter = None \<rparr>"
    if "map_get (records L) key = Some r" "now \<le> resetAt r"
       "map_size (records L) \<le> cleanupThreshold L \<or> sn \<le> resetAt r" "count r < maxAttempts L" for r
    using that by (simp add: check_found Let_def)
  show ?thesis
  proof (intro conjI)
    show "records (snd (check L now sn key False)) =
           filter (\<lambda>e. e \<in> set (records (snd (check L now sn key False)))) (records L)"
      by (rule check_only_sublist)
    show "size_limiter (snd (check L now sn key False)) \<le> size_limiter L"
      by (rule check_only_size)
    show "\<forall>e \<in> set (records L). e \<notin> set (records (snd (check L now sn key False))) \<longrightarrow>
             now > resetAt (snd e) \<or> sn > resetAt (snd e)"
      by (intro ballI impI) (rule check_only_removed [OF assms])
    show "(\<forall>r. map_get (records L) key = Some r \<longrightarrow> now \<le> resetAt r)
            \<and> (map_size (records L) \<le> cleanupThreshold L \<or>
                 (\<forall>e \<in> set (records L). sn \<le> resetAt (snd e)))
           \<longrightarrow> snd (check L now sn key False) = L"
      by (intro impI, elim conjE) (rule check_only_unchanged)
    show "map_get (records L) key = None \<or>
            (\<exists>r. map_get (records L) key = Some r \<and>
               (now > resetAt r \<or> map_size (records L) > cleanupThreshold L \<and> sn > resetAt r))
           \<longrightarrow> fst (check L now sn key False) =
                 \<lparr> allowed = True, remaining = maxAttempts L - 1, retryAfter = None \<rparr>"
      by (intro impI) (rule 5)
    show "\<forall>r. map_get (records L) key = Some r \<and> now \<le> resetAt r
               \<and> (map_size (records L) \<le> cleanupThreshold L \<or> sn \<le> resetAt r)
               \<and> count r < maxAttempts L
           \<longrightarrow> fst (check L now sn key False) =
                 \<lparr> allowed = True, remaining = maxAttempts L - count r, retryAfter = None \<rparr>"
      by (intro allI impI, elim conjE) (rule 6)
    show "snd (check L now sn key False) =
           L\<lparr> records :=
             (let kept = filter (\<lambda>e. \<not> (fst e = key \<and> now > resetAt (snd e))) (records L)
              in if map_size kept > cleanupThreshold L
                 then filter (\<lambda>e. sn \<le> resetAt (snd e)) kept else kept) \<rparr>"
      by (rule check_only_exact [OF assms])
    show "\<forall>r. map_get (records L) key = Some r \<and> now > resetAt r
           \<longrightarrow> map_get (records (snd (check L now sn key False))) key = None
               \<and> size_limiter (snd (check L now sn key False)) < size_limiter L"
      by (intro allI impI, elim conjE) (rule check_only_expired_removed [OF _ _ assms])
    show "map_size (filter (\<lambda>e. \<not> (fst e = key \<and> now > resetAt (snd e))) (records L))
              > cleanupThreshold L
           \<longrightarrow> (\<forall>e \<in> set (records (snd (check L now sn key False))). sn \<le> resetAt (snd e))"
      by (intro impI ballI) (rule check_only_sweep [OF assms])
  qed
qed

theorem check_only_frame_witness:
  "snd (check \<lparr> windowMs = 1000, maxAttempts = 5, cleanupThreshold = 1000,
        records = [(''k'', \<lparr> count = 3, resetAt = 100 \<rparr>)] \<rparr> 50 50 ''k'' False)
     = \<lparr> windowMs = 1000, maxAttempts = 5, cleanupThreshold = 1000,
        records = [(''k'', \<lparr> count = 3, resetAt = 100 \<rparr>)] \<rparr>
   \<and> fst (check \<lparr> windowMs = 1000, maxAttempts = 5, cleanupThreshold = 1000,
        records = [(''k'', \<lparr> count = 3, resetAt = 100 \<rparr>)] \<rparr> 50 50 ''k'' False)
     = \<lparr> allowed = True, remaining = 2, retryAfter = None \<rparr>
   \<and> fst (check \<lparr> windowMs = 1000, maxAttempts = 5, cleanupThreshold = 1000,
        records = [(''k'', \<lparr> count = 3, resetAt = 100 \<rparr>)] \<rparr> 50 50 ''j'' False)
     = \<lparr> allowed = True, remaining = 4, retryAfter = None \<rparr>
   \<and> map_get (records (snd (check \<lparr> windowMs = 1000, maxAttempts = 5, cleanupThreshold = 1000,
        records = [(''k'', \<lparr> count = 3, resetAt = 100 \<rparr>)] \<rparr> 101 101 ''k'' False))) ''k'' = None"
proof -
  define Lc :: "string rate_limiter" where
    "Lc = \<lparr> windowMs = 1000, maxAttempts = 5, cleanupThreshold = 1000,
        records = [(''k'', \<lparr> count = 3, resetAt = 100 \<rparr>)] \<rparr>"
  define r where "r = \<lparr> count = 3, resetAt = 100 \<rparr>"
  have d: "distinct (map fst (records Lc))"
    and k: "map_get (records Lc) ''k'' = Some r" "(50::int) \<le> resetAt r" "count r < maxAttempts Lc"
      "maxAttempts Lc - count r = 2" "map_size (records Lc) \<le> cleanupThreshold Lc"
      "\<forall>r. map_get (records Lc) ''k'' = Some r \<longrightarrow> 50 \<le> resetAt r"
      "(101::int) > resetAt r"
    and j: "map_get (records Lc) ''j'' = None" "maxAttempts Lc - 1 = 4"
    by (simp_all add: Lc_def r_def map_get_def map_size_def)
  note K = check_only_frame [OF d, of 50 50 "''k''"]
  note J = check_only_frame [OF d, of 50 50 "''j''"]
  note E = check_only_frame [OF d, of 101 101 "''k''"]
  have 1: "snd (check Lc 50 50 ''k'' False) = Lc"
    using K [THEN conjunct2, THEN conjunct2, THEN conjunct2, THEN conjunct1] k(5,6) by blast
  have "fst (check Lc 50 50 ''k'' False) =
      \<lparr> allowed = True, remaining = maxAttempts Lc - count r, retryAfter = None \<rparr>"
    using K [THEN conjunct2, THEN conjunct2, THEN conjunct2, THEN conjunct2, THEN conjunct2,
        THEN conjunct1]
      k(1-3,5) by blast
  then have 2: "fst (check Lc 50 50 ''k'' False) =
      \<lparr> allowed = True, remaining = 2, retryAfter = None \<rparr>"
    using k(4) by simp
  have "fst (check Lc 50 50 ''j'' False) =
      \<lparr> allowed = True, remaining = maxAttempts Lc - 1, retryAfter = None \<rparr>"
    using J [THEN conjunct2, THEN conjunct2, THEN conjunct2, THEN conjunct2, THEN conjunct1]
      j(1) by blast
  then have 3: "fst (check Lc 50 50 ''j'' False) =
      \<lparr> allowed = True, remaining = 4, retryAfter = None \<rparr>"
    using j(2) by simp
  have 4: "map_get (records (snd (check Lc 101 101 ''k'' False))) ''k'' = None"
    using E [THEN conjunct2, THEN conjunct2, THEN conjunct2, THEN conjunct2, THEN conjunct2,
        THEN conjunct2, THEN conjunct2, THEN conjunct1]
      k(1,7) by blast
  from 1 2 3 4 show ?thesis unfolding Lc_def by simp
qed

text \<open>
  With an expired record for the key, \<open>check(key, false)\<close> deletes it: \<open>size()\<close> goes
  from 1 to 0.
\<close>

theorem check_only_mutates_counterexample:
  "size_limiter (snd (check \<lparr> windowMs = 1000, maxAttempts = 5, cleanupThreshold = 1000,
        records = [(''k'', \<lparr> count = 3, resetAt = 100 \<rparr>)] \<rparr> 101 101 ''k'' False)) = 0
   \<and> size_limiter \<lparr> windowMs = 1000, maxAttempts = 5, cleanupThreshold = 1000,
        records = [(''k'', \<lparr> count = 3, resetAt = 100 \<rparr>)] \<rparr> = 1"
  by (simp add: check_def map_get_def map_size_def map_delete_def size_limiter_def Let_def)

section \<open>Strings and buffers: properties\<close>

lemma unat_byte: "n < 256 \<Longrightarrow> unat (word_of_nat n :: byte) = n"
  by (simp add: unat_of_nat)

lemma unat_unit: "n < 65536 \<Longrightarrow> unat (word_of_nat n :: code_unit) = n"
  by (simp add: unat_of_nat)

lemma byte_less: "unat (b :: byte) < 256"
  using unsigned_less [of b] by simp

lemma unit_less: "unat (u :: code_unit) < 65536"
  using unsigned_less [of u] by simp

subsection \<open>Hex\<close>

lemma unat_hex_unit: "n < 16 \<Longrightarrow> unat (hex_unit n) = (if n < 10 then 48 + n else 87 + n)"
  by (simp add: hex_unit_def unat_unit del: of_nat_add)

lemma unhex_hex_unit: "n < 16 \<Longrightarrow> unhex (unat (hex_unit n) mod 256) = Some n"
  by (simp add: unat_hex_unit unhex_def)

lemma hex_decode_encode: "hex_decode (hex_encode bs) = bs"
proof (induction bs)
  case Nil
  then show ?case by (simp add: hex_encode_def)
next
  case (Cons b bs)
  have d: "unat b div 16 < 16" "unat b mod 16 < 16"
    using byte_less [of b] by simp_all
  have "word_of_nat (unat b div 16 * 16 + unat b mod 16) = b"
    by simp
  with Cons d show ?case
    by (simp add: hex_encode_def unhex_hex_unit del: of_nat_add of_nat_mult)
qed

lemma hex_unit_not_dot: "n < 16 \<Longrightarrow> hex_unit n \<noteq> 0x2E"
proof
  assume "n < 16" "hex_unit n = 0x2E"
  then have "unat (hex_unit n) = unat (0x2E :: code_unit)" by simp
  then show False using \<open>n < 16\<close> by (simp add: unat_hex_unit split: if_splits)
qed

lemma hex_encode_no_dot: "0x2E \<notin> set (hex_encode bs)"
proof (induction bs)
  case Nil
  then show ?case by (simp add: hex_encode_def)
next
  case (Cons b bs)
  have d: "unat b div 16 < 16" "unat b mod 16 < 16"
    using byte_less [of b] by simp_all
  from hex_unit_not_dot [OF d(1)] hex_unit_not_dot [OF d(2)] Cons
  show ?case by (auto simp: hex_encode_def)
qed

subsection \<open>Base64\<close>

lemma unat_base64_unit:
  "n < 64 \<Longrightarrow> unat (base64_unit n) =
     (if n < 26 then 65 + n else if n < 52 then 71 + n else if n < 62 then n - 4
      else if n = 62 then 43 else 47)"
  by (simp add: base64_unit_def unat_unit del: of_nat_add of_nat_diff)

lemma unbase64_base64_unit:
  "n < 64 \<Longrightarrow> unbase64 (unat (base64_unit n) mod 256) = Some n"
  by (auto simp: unat_base64_unit unbase64_def)

lemma base64_unit_not_pad: "n < 64 \<Longrightarrow> unat (base64_unit n) mod 256 \<noteq> 61"
  by (auto simp: unat_base64_unit)

lemma base64_sextets_unit:
  "n < 64 \<Longrightarrow> base64_sextets (base64_unit n # cs) = n # base64_sextets cs"
  by (simp add: unbase64_base64_unit base64_unit_not_pad)

lemma base64_sextets_pad: "base64_sextets (0x3D # cs) = []"
  by simp

lemma sextet_bounds:
  fixes a b c :: nat
  assumes "a < 256" "b < 256" "c < 256"
  shows "a div 4 < 64" "a mod 4 * 16 + b div 16 < 64" "b mod 16 * 4 + c div 64 < 64"
    "c mod 64 < 64" "a mod 4 * 16 < 64" "b mod 16 * 4 < 64"
  using assms by simp_all

lemma recombine1: "(a::nat) div 4 * 4 + (a mod 4 * 16 + b div 16) div 16 = a" if "b < 256"
proof -
  have "b div 16 < 16" using that by simp
  then have "(a mod 4 * 16 + b div 16) div 16 = a mod 4" by simp
  then show ?thesis by simp
qed

lemma recombine2: "((a::nat) mod 4 * 16 + b div 16) mod 16 * 16 + (b mod 16 * 4 + c div 64) div 4 = b"
  if "b < 256" "c < 256"
proof -
  have "b div 16 < 16" "c div 64 < 4" using that by simp_all
  then have "(a mod 4 * 16 + b div 16) mod 16 = b div 16"
    "(b mod 16 * 4 + c div 64) div 4 = b mod 16" by simp_all
  then show ?thesis by simp
qed

lemma recombine3: "((b::nat) mod 16 * 4 + c div 64) mod 4 * 64 + c mod 64 = c" if "c < 256"
proof -
  have "c div 64 < 4" using that by simp
  then have "(b mod 16 * 4 + c div 64) mod 4 = c div 64" by simp
  then show ?thesis by simp
qed

lemma recombine4: "(a::nat) div 4 * 4 + a mod 4 * 16 div 16 = a"
  by simp

lemma recombine5: "((a::nat) mod 4 * 16 + b div 16) mod 16 * 16 + b mod 16 * 4 div 4 = b" if "b < 256"
proof -
  have "b div 16 < 16" using that by simp
  then have "(a mod 4 * 16 + b div 16) mod 16 = b div 16" by simp
  then show ?thesis by simp
qed

lemma base64_decode_encode: "sextets_bytes (base64_sextets (base64_encode bs)) = bs"
proof (induction bs rule: base64_encode.induct)
  case 1
  then show ?case by simp
next
  case (2 a)
  note B = sextet_bounds [OF byte_less [of a] byte_less [of a] byte_less [of a]]
  show ?case
    using recombine4 [of "unat a"]
    by (simp add: base64_sextets_unit B base64_sextets_pad del: of_nat_add of_nat_mult base64_sextets.simps)
next
  case (3 a b)
  note B = sextet_bounds [OF byte_less [of a] byte_less [of b] byte_less [of b]]
  show ?case
    using recombine1 [OF byte_less [of b], of "unat a"] recombine5 [OF byte_less [of b], of "unat a"]
    by (simp add: base64_sextets_unit B base64_sextets_pad del: of_nat_add of_nat_mult base64_sextets.simps)
next
  case (4 a b c bs)
  note B = sextet_bounds [OF byte_less [of a] byte_less [of b] byte_less [of c]]
  show ?case
    using 4 recombine1 [OF byte_less [of b], of "unat a"]
      recombine2 [OF byte_less [of b] byte_less [of c], of "unat a"]
      recombine3 [OF byte_less [of c], of "unat b"]
    by (simp add: base64_sextets_unit B base64_sextets_pad del: of_nat_add of_nat_mult base64_sextets.simps)
qed

lemma base64_unit_not_dot: "n < 64 \<Longrightarrow> base64_unit n \<noteq> 0x2E"
proof
  assume "n < 64" "base64_unit n = 0x2E"
  then have "unat (base64_unit n) = unat (0x2E :: code_unit)" by simp
  then show False using \<open>n < 64\<close> by (simp add: unat_base64_unit split: if_splits)
qed

lemma base64_encode_no_dot: "0x2E \<notin> set (base64_encode bs)"
proof (induction bs rule: base64_encode.induct)
  case 1
  then show ?case by simp
next
  case (2 a)
  note B = sextet_bounds [OF byte_less [of a] byte_less [of a] byte_less [of a]]
  show ?case by (simp add: base64_unit_not_dot B)
next
  case (3 a b)
  note B = sextet_bounds [OF byte_less [of a] byte_less [of b] byte_less [of b]]
  show ?case by (simp add: base64_unit_not_dot B)
next
  case (4 a b c bs)
  note B = sextet_bounds [OF byte_less [of a] byte_less [of b] byte_less [of c]]
  show ?case using 4 by (simp add: base64_unit_not_dot B)
qed

subsection \<open>Decimal numerals\<close>

lemma digits_of_digit: "d \<in> set (digits_of n) \<Longrightarrow> d < 10"
proof (induction n arbitrary: d rule: digits_of.induct)
  case (1 n)
  show ?case
  proof (cases "n < 10")
    case True
    with "1.prems" show ?thesis by (simp add: digits_of.simps [of n])
  next
    case False
    with "1.prems" "1.IH" show ?thesis
      by (auto simp: digits_of.simps [of n])
  qed
qed

lemma digits_of_not_empty: "digits_of n \<noteq> []"
  by (simp add: digits_of.simps [of n])

lemma unat_digit_unit: "d < 10 \<Longrightarrow> unat (digit_unit d) = 48 + d"
  by (simp add: digit_unit_def unat_unit del: of_nat_add)

lemma is_digit_unat: "is_digit c \<longleftrightarrow> 48 \<le> unat c \<and> unat c \<le> 57"
  by (simp add: is_digit_def word_le_nat_alt)

lemma is_digit_digit_unit: "d < 10 \<Longrightarrow> is_digit (digit_unit d)"
  by (simp add: is_digit_unat unat_digit_unit)

lemma digits_value_snoc: "digits_value (ds @ [c]) = digits_value ds * 10 + (uint c - 48)"
  by (simp add: digits_value_def)

lemma uint_digit_unit: "d < 10 \<Longrightarrow> uint (digit_unit d) = 48 + int d"
  by (simp add: uint_nat unat_digit_unit)

lemma digits_value_digits_of: "digits_value (map digit_unit (digits_of n)) = int n"
proof (induction n rule: digits_of.induct)
  case (1 n)
  show ?case
  proof (cases "n < 10")
    case True
    then show ?thesis
      by (simp add: digits_of.simps [of n] digits_value_def uint_digit_unit)
  next
    case False
    have "n mod 10 < 10" by simp
    then have u: "uint (digit_unit (n mod 10)) - 48 = int (n mod 10)"
      by (simp only: uint_digit_unit)
    have "int (n div 10) * 10 + int (n mod 10) = int n"
      by (simp add: zdiv_int zmod_int)
    with False "1.IH" u show ?thesis
      by (simp add: digits_of.simps [of n] digits_value_snoc)
  qed
qed

lemma digits_all_digit: "c \<in> set (map digit_unit (digits_of n)) \<Longrightarrow> is_digit c"
  using digits_of_digit is_digit_digit_unit by auto

lemma takeWhile_digits: "takeWhile is_digit (map digit_unit (digits_of n)) = map digit_unit (digits_of n)"
  using digits_all_digit [of _ n] by (simp add: takeWhile_eq_all_conv)

lemma digit_not_white_space: "is_digit c \<Longrightarrow> \<not> is_white_space c"
proof
  assume d: "is_digit c" and "is_white_space c"
  then have "unat c \<in> {0x09, 0x0A, 0x0B, 0x0C, 0x0D, 0x20, 0xA0, 0x1680, 0x2028, 0x2029, 0x202F,
      0x205F, 0x3000, 0xFEFF} \<or> (0x2000 \<le> unat c \<and> unat c \<le> 0x200A)"
    unfolding is_white_space_def by (auto simp: word_le_nat_alt)
  with d show False by (auto simp: is_digit_unat)
qed

lemma digit_not_sign: "is_digit c \<Longrightarrow> c \<noteq> 0x2D \<and> c \<noteq> 0x2B"
  by (auto simp: is_digit_unat)

lemma digit_not_colon: "is_digit c \<Longrightarrow> c \<noteq> 0x3A"
  by (auto simp: is_digit_unat)

lemma minus_not_white_space: "\<not> is_white_space 0x2D"
  by (simp add: is_white_space_def)

lemma parseInt_digits:
  assumes "ds \<noteq> []" and "\<forall>c \<in> set ds. is_digit c"
  shows "parseInt ds = Some (digits_value ds)"
    and "parseInt (0x2D # ds) = Some (- digits_value ds)"
proof -
  obtain c cs where ds: "ds = c # cs" using assms(1) by (cases ds) auto
  then have c: "is_digit c" using assms(2) by simp
  have t: "takeWhile is_digit ds = ds"
    using assms(2) by (simp add: takeWhile_eq_all_conv)
  have d: "dropWhile is_white_space ds = ds"
    using c digit_not_white_space ds by simp
  show "parseInt ds = Some (digits_value ds)"
    unfolding parseInt_def d using assms(1) digit_not_sign [OF c] t
    by (simp add: ds Let_def)
  have d': "dropWhile is_white_space (0x2D # ds) = 0x2D # ds"
    using minus_not_white_space by simp
  show "parseInt (0x2D # ds) = Some (- digits_value ds)"
    unfolding parseInt_def d' using assms(1)
    by (simp add: Let_def t)
qed

lemma parseInt_number_to_string: "parseInt (number_to_string n) = Some n"
proof -
  have ne: "map digit_unit (digits_of m) \<noteq> []" for m
    using digits_of_not_empty by simp
  have al: "\<forall>c \<in> set (map digit_unit (digits_of m)). is_digit c" for m
    using digits_all_digit by blast
  show ?thesis
    using parseInt_digits [OF ne al]
    by (simp add: number_to_string_def digits_value_digits_of)
qed

lemma number_to_string_no_colon: "0x3A \<notin> set (number_to_string n)"
proof -
  have "0x3A \<notin> set (map digit_unit (digits_of m))" for m
    using digits_all_digit [of "0x3A" m] digit_not_colon by blast
  then show ?thesis by (simp add: number_to_string_def)
qed

subsection \<open>Splitting and searching\<close>

lemma split_unit_none:
  assumes "sep \<notin> set s"
  shows "split_unit sep s = [s]"
proof -
  have d: "dropWhile (\<lambda>c. c \<noteq> sep) s = []" using assms by auto
  show ?thesis
    by (subst split_unit.simps) (simp only: d list.case)
qed

lemma split_unit_one:
  assumes "sep \<notin> set a" and "sep \<notin> set b"
  shows "split_unit sep (a @ sep # b) = [a, b]"
proof -
  have d: "dropWhile (\<lambda>c. c \<noteq> sep) (a @ sep # b) = sep # b"
    using assms(1) by (induction a) auto
  have t: "takeWhile (\<lambda>c. c \<noteq> sep) (a @ sep # b) = a"
    using assms(1) by (induction a) auto
  show ?thesis
    by (subst split_unit.simps) (simp only: d t list.case split_unit_none [OF assms(2)])
qed

lemma last_index_scan_absent: "c \<notin> set s \<Longrightarrow> last_index_scan i found s c = found"
  by (induction s arbitrary: i found) auto

lemma last_index_scan_append:
  "last_index_scan i found (s @ t) c =
     last_index_scan (i + int (length s)) (last_index_scan i found s c) t c"
  by (induction s arbitrary: i found) (auto simp: algebra_simps)

lemma last_index_scan_present:
  "c \<in> set s \<Longrightarrow> i \<le> last_index_scan i found s c \<and> last_index_scan i found s c < i + int (length s)"
proof (induction s arbitrary: i found)
  case Nil
  then show ?case by simp
next
  case (Cons x xs)
  show ?case
  proof (cases "c \<in> set xs")
    case True
    from Cons.IH [OF this, of "i + 1" "if x = c then i else found"] show ?thesis by simp
  next
    case False
    with Cons.prems have "x = c" by simp
    with False show ?thesis by (simp add: last_index_scan_absent)
  qed
qed

lemma lastIndexOf_absent: "lastIndexOf s c = - 1 \<longleftrightarrow> c \<notin> set s"
  using last_index_scan_present [of c s 0 "- 1"] last_index_scan_absent [of c s 0 "- 1"]
  by (auto simp: lastIndexOf_def)

lemma lastIndexOf_last: "c \<notin> set t \<Longrightarrow> lastIndexOf (s @ c # t) c = int (length s)"
  by (simp add: lastIndexOf_def last_index_scan_append last_index_scan_absent)

lemma lastIndexOf_range:
  "c \<in> set s \<Longrightarrow> 0 \<le> lastIndexOf s c \<and> lastIndexOf s c < int (length s)"
  using last_index_scan_present [of c s 0 "- 1"] by (simp add: lastIndexOf_def)

subsection \<open>UTF-8\<close>

lemma div_4096: "(cp::nat) div 4096 = cp div 64 div 64"
  by (simp add: div_mult2_eq [symmetric])

lemma div_262144: "(cp::nat) div 262144 = cp div 4096 div 64"
  by (simp add: div_mult2_eq [symmetric])

lemma lead_mod:
  fixes x :: nat
  shows "x < 32 \<Longrightarrow> (0xC0 + x) mod 32 = x"
    and "x < 16 \<Longrightarrow> (0xE0 + x) mod 16 = x"
    and "x < 8 \<Longrightarrow> (0xF0 + x) mod 8 = x"
proof -
  have "(0xC0 + x) mod 32 = x mod 32" by (simp add: mod_add_left_eq [symmetric])
  then show "x < 32 \<Longrightarrow> (0xC0 + x) mod 32 = x" by simp
  have "(0xE0 + x) mod 16 = x mod 16" by (simp add: mod_add_left_eq [symmetric])
  then show "x < 16 \<Longrightarrow> (0xE0 + x) mod 16 = x" by simp
  have "(0xF0 + x) mod 8 = x mod 8" by (simp add: mod_add_left_eq [symmetric])
  then show "x < 8 \<Longrightarrow> (0xF0 + x) mod 8 = x" by simp
qed

lemma continuation_mod: "(0x80 + (x::nat) mod 64) mod 64 = x mod 64"
proof -
  have "(0x80 + x mod 64) mod 64 = (x mod 64) mod 64"
    by (simp add: mod_add_left_eq [symmetric])
  then show ?thesis by simp
qed

lemma recombine_64: "(q::nat) div 64 * 64 + q mod 64 = q"
  by simp

lemma low_bound:
  fixes q :: nat
  assumes "k * 64 + m \<le> q" "q div 64 = k"
  shows "m \<le> q mod 64"
proof -
  have "q = k * 64 + q mod 64" using assms(2) recombine_64 [of q] by simp
  with assms(1) show ?thesis by linarith
qed

lemma high_bound:
  fixes q :: nat
  assumes "q < k * 64 + m" "q div 64 = k"
  shows "q mod 64 < m"
proof -
  have "q = k * 64 + q mod 64" using assms(2) recombine_64 [of q] by simp
  with assms(1) show ?thesis by linarith
qed

lemma div_64_mono:
  fixes cp :: nat
  shows "0x800 \<le> cp \<Longrightarrow> 32 \<le> cp div 64"
    and "cp < 0xD800 \<Longrightarrow> cp div 64 < 864"
    and "0x10000 \<le> cp \<Longrightarrow> 16 \<le> cp div 4096"
    and "cp < 0x110000 \<Longrightarrow> cp div 4096 < 272"
    and "cp < 0x10000 \<Longrightarrow> cp div 4096 < 16"
    and "cp < 0x110000 \<Longrightarrow> cp div 262144 < 5"
    and "cp < 0x800 \<Longrightarrow> cp div 64 < 32"
  by simp_all

lemma continuation_value: "m < 64 \<Longrightarrow> (0x80 + (m::nat)) mod 64 = m"
  using continuation_mod [of m] by simp

lemma utf8_run_ascii:
  "cp < 0x80 \<Longrightarrow> utf8_run utf8_initial (cp # bs) = cp # utf8_run utf8_initial bs"
  by (simp add: utf8_initial_def utf8_lead_def)

lemma utf8_run_two_bytes:
  assumes "2 \<le> k" "k < 32" "m < 64"
  shows "utf8_run utf8_initial ((0xC0 + k) # (0x80 + m) # bs)
       = (k * 64 + m) # utf8_run utf8_initial bs"
  using assms by (auto simp: utf8_initial_def utf8_lead_def lead_mod continuation_value)

lemma utf8_run_three_bytes:
  assumes "k < 16" "m2 < 64" "m3 < 64" "k = 0 \<longrightarrow> 32 \<le> m2" "k = 13 \<longrightarrow> m2 < 32"
  shows "utf8_run utf8_initial ((0xE0 + k) # (0x80 + m2) # (0x80 + m3) # bs)
       = ((k * 64 + m2) * 64 + m3) # utf8_run utf8_initial bs"
  using assms by (auto simp: utf8_initial_def utf8_lead_def lead_mod continuation_value)

lemma utf8_run_four_bytes:
  assumes "k < 5" "m2 < 64" "m3 < 64" "m4 < 64" "k = 0 \<longrightarrow> 16 \<le> m2" "k = 4 \<longrightarrow> m2 < 16"
  shows "utf8_run utf8_initial ((0xF0 + k) # (0x80 + m2) # (0x80 + m3) # (0x80 + m4) # bs)
       = (((k * 64 + m2) * 64 + m3) * 64 + m4) # utf8_run utf8_initial bs"
  using assms by (auto simp: utf8_initial_def utf8_lead_def lead_mod continuation_value)

lemma utf8_run_two:
  assumes "0x80 \<le> cp" "cp < 0x800"
  shows "utf8_run utf8_initial ((0xC0 + cp div 64) # (0x80 + cp mod 64) # bs)
       = cp # utf8_run utf8_initial bs"
proof -
  have "2 \<le> cp div 64" "cp div 64 < 32" "cp mod 64 < 64" using assms by simp_all
  from utf8_run_two_bytes [OF this, of bs] show ?thesis by simp
qed

lemma utf8_run_three:
  assumes "0x800 \<le> cp" "cp < 0x10000" "\<not> (0xD800 \<le> cp \<and> cp \<le> 0xDFFF)"
  shows "utf8_run utf8_initial
           ((0xE0 + cp div 4096) # (0x80 + cp div 64 mod 64) # (0x80 + cp mod 64) # bs)
       = cp # utf8_run utf8_initial bs"
proof -
  define q where "q = cp div 64"
  define k where "k = cp div 4096"
  have kq: "k = q div 64" by (simp add: k_def q_def div_4096)
  have 1: "k < 16" using assms(2) by (simp add: k_def div_64_mono)
  have 4: "q mod 64 < 64" "cp mod 64 < 64" by simp_all
  have lo: "32 \<le> q mod 64" if "k = 0"
  proof (rule low_bound [of 0])
    show "0 * 64 + 32 \<le> q" using assms(1) by (simp add: q_def div_64_mono)
    show "q div 64 = 0" using that kq by simp
  qed
  have hi: "q mod 64 < 32" if "k = 13"
  proof (rule high_bound [of _ 13])
    have "cp div 4096 < 14" using that by (simp add: k_def)
    then have "cp < 14 * 4096" by (simp only: div_less_iff_less_mult [of 4096 cp 14]) 
    then have "cp < 0xD800" using assms(3) by simp
    then show "q < 13 * 64 + 32" by (simp add: q_def div_64_mono)
    show "q div 64 = 13" using that kq by simp
  qed
  have 5: "k * 64 + q mod 64 = q" using recombine_64 [of q] kq by simp
  have 6: "q * 64 + cp mod 64 = cp" by (simp add: q_def)
  have "utf8_run utf8_initial ((0xE0 + k) # (0x80 + q mod 64) # (0x80 + cp mod 64) # bs)
       = ((k * 64 + q mod 64) * 64 + cp mod 64) # utf8_run utf8_initial bs"
    using 1 4 lo hi by (intro utf8_run_three_bytes) blast+
  then show ?thesis by (simp only: 5 6) (simp only: q_def k_def)
qed

lemma utf8_run_four:
  assumes "0x10000 \<le> cp" "cp < 0x110000"
  shows "utf8_run utf8_initial
           ((0xF0 + cp div 262144) # (0x80 + cp div 4096 mod 64) # (0x80 + cp div 64 mod 64)
             # (0x80 + cp mod 64) # bs)
       = cp # utf8_run utf8_initial bs"
proof -
  define q where "q = cp div 64"
  define p where "p = cp div 4096"
  define k where "k = cp div 262144"
  have pq: "p = q div 64" by (simp add: p_def q_def div_4096)
  have kp: "k = p div 64" by (simp add: k_def p_def div_262144)
  have 1: "k < 5" using assms(2) by (simp add: k_def div_64_mono)
  have 4: "p mod 64 < 64" "q mod 64 < 64" "cp mod 64 < 64" by simp_all
  have lo: "16 \<le> p mod 64" if "k = 0"
  proof (rule low_bound [of 0])
    show "0 * 64 + 16 \<le> p" using assms(1) by (simp add: p_def div_64_mono)
    show "p div 64 = 0" using that kp by simp
  qed
  have hi: "p mod 64 < 16" if "k = 4"
  proof (rule high_bound [of _ 4])
    show "p < 4 * 64 + 16" using assms(2) by (simp add: p_def div_64_mono)
    show "p div 64 = 4" using that kp by simp
  qed
  have 5: "k * 64 + p mod 64 = p" using recombine_64 [of p] kp by simp
  have 6: "p * 64 + q mod 64 = q" using recombine_64 [of q] pq by simp
  have 7: "q * 64 + cp mod 64 = cp" by (simp add: q_def)
  have "utf8_run utf8_initial
           ((0xF0 + k) # (0x80 + p mod 64) # (0x80 + q mod 64) # (0x80 + cp mod 64) # bs)
       = (((k * 64 + p mod 64) * 64 + q mod 64) * 64 + cp mod 64) # utf8_run utf8_initial bs"
    using 1 4 lo hi by (intro utf8_run_four_bytes) blast+
  then show ?thesis by (simp only: 5 6 7) (simp only: q_def p_def k_def)
qed

lemma utf8_run_bytes:
  assumes "scalar_value cp"
  shows "utf8_run utf8_initial (map unat (utf8_bytes cp) @ bs) = cp # utf8_run utf8_initial bs"
proof -
  consider "cp < 0x80" | "0x80 \<le> cp" "cp < 0x800" | "0x800 \<le> cp" "cp < 0x10000"
    | "0x10000 \<le> cp" "cp < 0x110000"
    using assms unfolding scalar_value_def by linarith
  then show ?thesis
  proof cases
    case 1
    then have "map unat (utf8_bytes cp) = [cp]"
      by (simp add: utf8_bytes_def unat_byte)
    then show ?thesis using utf8_run_ascii [OF 1] by simp
  next
    case 2
    have "0xC0 + cp div 64 < 256" "0x80 + cp mod 64 < 256"
      using div_64_mono(7) [OF 2(2)] by simp_all
    then have "map unat (utf8_bytes cp) = [0xC0 + cp div 64, 0x80 + cp mod 64]"
      using 2 by (simp add: utf8_bytes_def unat_byte del: of_nat_add)
    then show ?thesis using utf8_run_two [OF 2] by simp
  next
    case 3
    have "0xE0 + cp div 4096 < 256" "0x80 + cp div 64 mod 64 < 256" "0x80 + cp mod 64 < 256"
      using div_64_mono(5) [OF 3(2)] by simp_all
    then have "map unat (utf8_bytes cp) =
        [0xE0 + cp div 4096, 0x80 + cp div 64 mod 64, 0x80 + cp mod 64]"
      using 3 by (simp add: utf8_bytes_def unat_byte del: of_nat_add)
    moreover have "\<not> (0xD800 \<le> cp \<and> cp \<le> 0xDFFF)"
      using assms by (simp add: scalar_value_def)
    ultimately show ?thesis using utf8_run_three [OF 3] by simp
  next
    case 4
    have "0xF0 + cp div 262144 < 256" "0x80 + cp div 4096 mod 64 < 256"
      "0x80 + cp div 64 mod 64 < 256" "0x80 + cp mod 64 < 256"
      using div_64_mono(6) [OF 4(2)] by simp_all
    then have "map unat (utf8_bytes cp) =
        [0xF0 + cp div 262144, 0x80 + cp div 4096 mod 64, 0x80 + cp div 64 mod 64,
         0x80 + cp mod 64]"
      using 4 by (simp add: utf8_bytes_def unat_byte del: of_nat_add)
    then show ?thesis using utf8_run_four [OF 4] by simp
  qed
qed

lemma utf8_run_concat:
  "\<forall>cp \<in> set cps. scalar_value cp \<Longrightarrow>
   utf8_run utf8_initial (map unat (concat (map utf8_bytes cps))) = cps"
proof (induction cps)
  case Nil
  then show ?case by (simp add: utf8_initial_def)
next
  case (Cons cp cps)
  then have "scalar_value cp" by simp
  from utf8_run_bytes [OF this, of "map unat (concat (map utf8_bytes cps))"] Cons
  show ?case by simp
qed

subsection \<open>UTF-16\<close>

lemma surrogate_unat:
  "is_high_surrogate u \<longleftrightarrow> 0xD800 \<le> unat u \<and> unat u \<le> 0xDBFF"
  "is_low_surrogate u \<longleftrightarrow> 0xDC00 \<le> unat u \<and> unat u \<le> 0xDFFF"
  by (simp_all add: is_high_surrogate_def is_low_surrogate_def word_le_nat_alt)

lemma unit_point_scalar: "scalar_value (unit_point u)"
  using unit_less [of u] by (auto simp: unit_point_def scalar_value_def surrogate_unat)

lemma pair_point_scalar:
  assumes "is_high_surrogate u" "is_low_surrogate v"
  shows "scalar_value (0x10000 + (unat u - 0xD800) * 1024 + (unat v - 0xDC00))"
  using assms by (auto simp: scalar_value_def surrogate_unat)

lemma code_points_scalar: "cp \<in> set (code_points s) \<Longrightarrow> scalar_value cp"
proof (induction s arbitrary: cp rule: code_points.induct)
  case 1
  then show ?case by simp
next
  case (2 u)
  then show ?case by (simp add: unit_point_scalar)
next
  case (3 u v us)
  then show ?case
    by (auto simp: unit_point_scalar pair_point_scalar split: if_splits)
qed

lemma utf8_decode_encode: "utf8_decode (utf8_encode s) = to_well_formed s"
  using utf8_run_concat [of "code_points s"] code_points_scalar [of _ s]
  by (simp add: utf8_decode_def utf8_encode_def to_well_formed_def)

lemma code_points_single:
  "\<not> is_high_surrogate u \<Longrightarrow> code_points (u # us) = unit_point u # code_points us"
  by (cases us) simp_all

lemma code_points_pair:
  "is_high_surrogate u \<Longrightarrow> is_low_surrogate v \<Longrightarrow>
   code_points (u # v # us) = (0x10000 + (unat u - 0xD800) * 1024 + (unat v - 0xDC00)) # code_points us"
  by simp

lemma utf16_units_small:
  assumes "scalar_value cp" "cp < 0x10000"
  shows "code_points (utf16_units cp @ us) = cp # code_points us"
proof -
  have u: "unat (word_of_nat cp :: code_unit) = cp"
    using assms(2) by (simp add: unat_unit)
  then have "\<not> is_high_surrogate (word_of_nat cp)" "\<not> is_low_surrogate (word_of_nat cp)"
    using assms(1) by (auto simp: surrogate_unat scalar_value_def)
  then have "code_points (word_of_nat cp # us) = cp # code_points us"
    using u by (simp add: code_points_single unit_point_def)
  then show ?thesis using assms(2) by (simp add: utf16_units_def)
qed

lemma utf16_units_large:
  assumes "scalar_value cp" "0x10000 \<le> cp"
  shows "code_points (utf16_units cp @ us) = cp # code_points us"
proof -
  define d where "d = cp - 0x10000"
  have d: "d < 0x100000" using assms by (simp add: d_def scalar_value_def)
  then have q: "d div 1024 < 1024" by simp
  have r: "d mod 1024 < 1024" by simp
  have h: "unat (word_of_nat (0xD800 + d div 1024) :: code_unit) = 0xD800 + d div 1024"
    using q by (intro unat_unit) simp
  have l: "unat (word_of_nat (0xDC00 + d mod 1024) :: code_unit) = 0xDC00 + d mod 1024"
    using r by (intro unat_unit) simp
  have hs: "is_high_surrogate (word_of_nat (0xD800 + d div 1024))"
    unfolding surrogate_unat h using q by simp
  have ls: "is_low_surrogate (word_of_nat (0xDC00 + d mod 1024))"
    unfolding surrogate_unat l using r by simp
  have "code_points (word_of_nat (0xD800 + d div 1024) # word_of_nat (0xDC00 + d mod 1024) # us)
      = (0x10000 + d div 1024 * 1024 + d mod 1024) # code_points us"
    by (simp only: code_points_pair [OF hs ls] h l) simp
  moreover have "0x10000 + d div 1024 * 1024 + d mod 1024 = cp"
    using assms(2) by (simp add: d_def)
  ultimately show ?thesis
    using assms(2) by (simp add: utf16_units_def d_def del: of_nat_add)
qed

lemma code_points_utf16:
  "\<forall>cp \<in> set cps. scalar_value cp \<Longrightarrow> code_points (concat (map utf16_units cps)) = cps"
proof (induction cps)
  case Nil
  then show ?case by simp
next
  case (Cons cp cps)
  then have s: "scalar_value cp" by simp
  show ?case
  proof (cases "cp < 0x10000")
    case True
    from utf16_units_small [OF s True] Cons show ?thesis by simp
  next
    case False
    then have "0x10000 \<le> cp" by simp
    from utf16_units_large [OF s this] Cons show ?thesis by simp
  qed
qed

lemma code_points_to_well_formed: "code_points (to_well_formed s) = code_points s"
  using code_points_utf16 [of "code_points s"] code_points_scalar [of _ s]
  by (simp add: to_well_formed_def)

lemma utf8_encode_to_well_formed: "utf8_encode (to_well_formed s) = utf8_encode s"
  by (simp add: utf8_encode_def code_points_to_well_formed)

lemma utf16_units_unit:
  "\<not> is_high_surrogate u \<Longrightarrow> \<not> is_low_surrogate u \<Longrightarrow> utf16_units (unit_point u) = [u]"
  using unit_less [of u] by (simp add: unit_point_def utf16_units_def)

lemma utf16_units_pair:
  assumes "is_high_surrogate u" "is_low_surrogate v"
  shows "utf16_units (0x10000 + (unat u - 0xD800) * 1024 + (unat v - 0xDC00)) = [u, v]"
proof -
  define a where "a = unat u - 0xD800"
  define b where "b = unat v - 0xDC00"
  have a: "0xD800 + a = unat u" using assms(1) by (simp add: a_def surrogate_unat)
  have b: "0xDC00 + b = unat v" "b < 1024" using assms(2) by (auto simp: b_def surrogate_unat)
  have "(a * 1024 + b) div 1024 = a" "(a * 1024 + b) mod 1024 = b"
    using b(2) by simp_all
  then have "utf16_units (0x10000 + a * 1024 + b) = [word_of_nat (0xD800 + a), word_of_nat (0xDC00 + b)]"
    by (simp add: utf16_units_def del: of_nat_add)
  then show ?thesis by (simp only: a b) (simp add: a_def b_def)
qed

lemma to_well_formed_id: "is_well_formed s \<Longrightarrow> to_well_formed s = s"
proof (induction s rule: is_well_formed.induct)
  case 1
  then show ?case by (simp add: to_well_formed_def)
next
  case (2 u)
  then show ?case by (simp add: to_well_formed_def utf16_units_unit)
next
  case (3 u v us)
  show ?case
  proof (cases "is_high_surrogate u \<and> is_low_surrogate v")
    case True
    with 3 show ?thesis by (simp add: to_well_formed_def utf16_units_pair)
  next
    case False
    with 3 show ?thesis by (simp add: to_well_formed_def utf16_units_unit)
  qed
qed

lemma code_points_append:
  "\<not> is_low_surrogate c \<Longrightarrow> code_points (s @ c # t) = code_points s @ code_points (c # t)"
proof (induction s rule: code_points.induct)
  case 1
  then show ?case by simp
next
  case (2 u)
  then show ?case by simp
next
  case (3 u v us)
  then show ?case by simp
qed

lemma to_well_formed_append:
  "\<not> is_low_surrogate c \<Longrightarrow> to_well_formed (s @ c # t) = to_well_formed s @ to_well_formed (c # t)"
  by (simp add: to_well_formed_def code_points_append)

lemma is_well_formed_plain:
  "\<forall>c \<in> set s. \<not> is_high_surrogate c \<and> \<not> is_low_surrogate c \<Longrightarrow> is_well_formed s"
  by (induction s rule: is_well_formed.induct) simp_all

lemma digit_not_surrogate: "is_digit c \<Longrightarrow> \<not> is_high_surrogate c \<and> \<not> is_low_surrogate c"
  by (simp add: is_digit_unat surrogate_unat)

lemma number_to_string_plain:
  "c \<in> set (number_to_string n) \<Longrightarrow> \<not> is_high_surrogate c \<and> \<not> is_low_surrogate c"
proof -
  assume "c \<in> set (number_to_string n)"
  then have "c = 0x2D \<or> is_digit c"
    using digits_all_digit by (auto simp: number_to_string_def split: if_splits)
  then show ?thesis
    using digit_not_surrogate by (auto simp: surrogate_unat)
qed

lemma colon_plain: "\<not> is_high_surrogate 0x3A \<and> \<not> is_low_surrogate 0x3A"
  by (simp add: surrogate_unat)

lemma to_well_formed_data:
  "to_well_formed (s @ [0x3A] @ number_to_string n) = to_well_formed s @ [0x3A] @ number_to_string n"
proof -
  have "is_well_formed (0x3A # number_to_string n)"
    using number_to_string_plain colon_plain by (intro is_well_formed_plain) auto
  then have "to_well_formed (0x3A # number_to_string n) = 0x3A # number_to_string n"
    by (rule to_well_formed_id)
  then show ?thesis
    using to_well_formed_append [of "0x3A" s "number_to_string n"] colon_plain by simp
qed

section \<open>Session tokens: properties\<close>

subsection \<open>Generated tokens\<close>

lemma base64_decode_total: "base64_decode s \<noteq> None"
  by (simp add: base64_decode_def)

lemma generate_token:
  assumes "session_id \<noteq> []" "secret \<noteq> []"
  shows "generateSessionToken hmac now session_id secret =
     Inr (base64_encode (utf8_encode (session_id @ 0x3A # number_to_string now)) @ 0x2E
          # hex_encode (hmac (utf8_encode secret)
              (utf8_encode (session_id @ 0x3A # number_to_string now))))"
  using assms by (simp add: generateSessionToken_def Let_def)

lemma validate_split:
  assumes "secret \<noteq> []"
  shows "validateSessionToken hmac (base64_encode bs @ 0x2E # hex_encode sig) secret =
     (if sig \<noteq> hmac (utf8_encode secret) (utf8_encode (utf8_decode bs))
      then invalid_token ''Invalid signature''
      else if lastIndexOf (utf8_decode bs) 0x3A = - 1
      then invalid_token ''Invalid token data format''
      else case parseInt (slice_from (utf8_decode bs) (lastIndexOf (utf8_decode bs) 0x3A + 1)) of
             None \<Rightarrow> invalid_token ''Invalid timestamp''
           | Some ts \<Rightarrow>
               \<lparr> valid = True,
                 sessionId = Some (slice_to (utf8_decode bs) (lastIndexOf (utf8_decode bs) 0x3A)),
                 timestamp = Some ts, error = None \<rparr>)"
proof -
  have s: "split_unit 0x2E (base64_encode bs @ 0x2E # hex_encode sig)
      = [base64_encode bs, hex_encode sig]"
    using split_unit_one [OF base64_encode_no_dot hex_encode_no_dot] by simp
  have d: "base64_decode (base64_encode bs) = Some bs"
    by (simp add: base64_decode_def base64_decode_encode)
  have n: "base64_encode bs @ 0x2E # hex_encode sig \<noteq> []"
    by simp
  show ?thesis
    unfolding validateSessionToken_def s
    using assms n
    by (auto simp: d hex_decode_encode timingSafeEqual_def Let_def)
qed

lemma validate_generated:
  assumes "secret \<noteq> []"
  shows "validateSessionToken hmac
      (base64_encode (utf8_encode (session_id @ 0x3A # number_to_string now)) @ 0x2E
          # hex_encode (hmac (utf8_encode secret)
              (utf8_encode (session_id @ 0x3A # number_to_string now)))) secret
    = \<lparr> valid = True, sessionId = Some (to_well_formed session_id), timestamp = Some now,
        error = None \<rparr>"
proof -
  define data where "data = session_id @ 0x3A # number_to_string now"
  define w where "w = to_well_formed session_id"
  define data' where "data' = w @ 0x3A # number_to_string now"
  have dec: "utf8_decode (utf8_encode data) = data'"
    using to_well_formed_data [of session_id now]
    by (simp add: utf8_decode_encode data_def w_def data'_def)
  have enc: "utf8_encode data' = utf8_encode data"
    using utf8_encode_to_well_formed [of data] dec by (simp add: utf8_decode_encode)
  have li: "lastIndexOf data' 0x3A = int (length w)"
    unfolding data'_def by (rule lastIndexOf_last) (rule number_to_string_no_colon)
  have sl: "slice_to data' (int (length w)) = w"
    "slice_from data' (int (length w) + 1) = number_to_string now"
    by (simp_all add: slice_to_def slice_from_def nat_add_distrib data'_def)
  have "validateSessionToken hmac
      (base64_encode (utf8_encode data) @ 0x2E
          # hex_encode (hmac (utf8_encode secret) (utf8_encode data))) secret
    = \<lparr> valid = True, sessionId = Some w, timestamp = Some now, error = None \<rparr>"
    unfolding validate_split [OF assms] dec enc li sl
    by (simp add: parseInt_number_to_string)
  then show ?thesis by (simp only: data_def w_def)
qed

subsection \<open>HMAC keys\<close>

lemma length_hmac_block_key:
  assumes "\<And>m. length (H m) = 32"
  shows "length (hmac_block_key H key) = 64"
  using assms by (simp add: hmac_block_key_def Let_def)

lemma xor_pad_inj: "map (\<lambda>b. xor b (c :: byte)) xs = map (\<lambda>b. xor b c) ys \<Longrightarrow> xs = ys"
proof -
  have "inj (\<lambda>b :: byte. xor b c)"
    by (rule inj_on_inverseI [where g = "\<lambda>b. xor b c"]) (simp add: xor.assoc)
  then show "map (\<lambda>b. xor b c) xs = map (\<lambda>b. xor b c) ys \<Longrightarrow> xs = ys"
    by (simp add: inj_map_eq_map)
qed

lemma hmac_outer_differs:
  assumes "\<And>m. length (H m) = 32"
      and "hmac_block_key H keyA \<noteq> hmac_block_key H keyB"
  shows "hmac_outer H keyA msgA \<noteq> hmac_outer H keyB msgB"
proof
  assume "hmac_outer H keyA msgA = hmac_outer H keyB msgB"
  then have "map (\<lambda>b. xor b 0x5C) (hmac_block_key H keyA) @ H (hmac_inner H keyA msgA)
      = map (\<lambda>b. xor b 0x5C) (hmac_block_key H keyB) @ H (hmac_inner H keyB msgB)"
    by (simp only: hmac_outer_def)
  then have "map (\<lambda>b. xor b 0x5C) (hmac_block_key H keyA)
      = map (\<lambda>b. xor b 0x5C) (hmac_block_key H keyB)"
    by (simp add: length_hmac_block_key [OF assms(1)])
  then have "hmac_block_key H keyA = hmac_block_key H keyB"
    by (rule xor_pad_inj)
  with assms(2) show False by contradiction
qed

lemma hmac_with_same_block_key:
  assumes "hmac_block_key H keyA = hmac_block_key H keyB"
  shows "hmac_with H keyA msg = hmac_with H keyB msg"
  using assms by (simp add: hmac_with_def hmac_outer_def hmac_inner_def)

lemma strip_zero_padding:
  assumes "k = [] \<or> last k \<noteq> 0"
  shows "rev (dropWhile (\<lambda>b. b = 0) (rev (k @ replicate n (0 :: byte)))) = k"
proof -
  have "dropWhile (\<lambda>b. b = 0) (rev (k @ replicate n (0 :: byte))) = dropWhile (\<lambda>b. b = 0) (rev k)"
    unfolding rev_append rev_replicate by (rule dropWhile_append2) simp
  also have "\<dots> = rev k"
    using assms by (cases "rev k") (auto simp: last_rev [symmetric] hd_rev)
  finally show ?thesis by simp
qed

lemma hmac_block_key_short:
  assumes "length a \<le> 64" and "length b \<le> 64"
      and "a = [] \<or> last a \<noteq> 0" and "b = [] \<or> last b \<noteq> 0"
      and "hmac_block_key H a = hmac_block_key H b"
  shows "a = b"
proof -
  have "a @ replicate (64 - length a) 0 = b @ replicate (64 - length b) 0"
    using assms(1,2,5) by (simp add: hmac_block_key_def)
  then have "rev (dropWhile (\<lambda>x. x = 0) (rev (a @ replicate (64 - length a) 0)))
      = rev (dropWhile (\<lambda>x. x = 0) (rev (b @ replicate (64 - length b) 0)))"
    by (rule arg_cong)
  then show ?thesis
    by (simp only: strip_zero_padding [OF assms(3)] strip_zero_padding [OF assms(4)])
qed

subsection \<open>Round trip and rejection of a wrong secret\<close>

lemma sample_inputs:
  "js ''a:b-123'' \<noteq> []" "js ''s3cr3t'' \<noteq> []" "is_well_formed (js ''a:b-123'')"
  "js ''other'' \<noteq> []"
  by (simp_all add: js_def surrogate_unat)

text \<open>
  Claim C1, amended. For every non-empty secret and every non-empty session id that is
  well-formed UTF-16, also one containing \<open>:\<close>, generating a token does not throw, and
  validating it with the same secret gives \<open>valid = true\<close>, the original session id,
  the timestamp of generation and \<open>error = null\<close>.
\<close>

theorem token_round_trip:
  assumes "session_id \<noteq> []" and "secret \<noteq> []" and "is_well_formed session_id"
  shows "case generateSessionToken hmac now session_id secret of
           Inl thrown \<Rightarrow> False
         | Inr token \<Rightarrow>
             validateSessionToken hmac token secret =
               \<lparr> valid = True, sessionId = Some session_id, timestamp = Some now, error = None \<rparr>"
  using validate_generated [OF assms(2), of hmac session_id now] to_well_formed_id [OF assms(3)]
  by (simp add: generate_token [OF assms(1,2)])

theorem token_round_trip_witness:
  "case generateSessionToken sample_hmac 1705000000000 (js ''a:b-123'') (js ''s3cr3t'') of
     Inl thrown \<Rightarrow> False
   | Inr token \<Rightarrow>
       validateSessionToken sample_hmac token (js ''s3cr3t'') =
         \<lparr> valid = True, sessionId = Some (js ''a:b-123''), timestamp = Some 1705000000000,
           error = None \<rparr>"
  using token_round_trip [OF sample_inputs(1,2,3)] .

text \<open>
  A session id that is a lone surrogate comes back as U+FFFD: the token carries the
  UTF-8 bytes of the string, and UTF-8 has no encoding of a lone surrogate.
\<close>

theorem lone_surrogate_counterexample:
  "case generateSessionToken sample_hmac 1705000000000 [0xD800] (js ''s3cr3t'') of
     Inl thrown \<Rightarrow> False
   | Inr token \<Rightarrow>
       validateSessionToken sample_hmac token (js ''s3cr3t'') =
         \<lparr> valid = True, sessionId = Some [0xFFFD], timestamp = Some 1705000000000,
           error = None \<rparr>"
proof -
  have "to_well_formed [0xD800] = [0xFFFD]"
    by (simp add: to_well_formed_def unit_point_def utf16_units_def surrogate_unat)
  then show ?thesis
    using validate_generated [OF sample_inputs(2), of sample_hmac "[0xD800]" 1705000000000]
    by (simp add: generate_token [OF _ sample_inputs(2)])
qed

lemma validate_other_secret:
  assumes "session_id \<noteq> []" and "secretA \<noteq> []" and "secretB \<noteq> []"
  shows "validateSessionToken hmac
      (base64_encode (utf8_encode (session_id @ 0x3A # number_to_string now)) @ 0x2E
          # hex_encode (hmac (utf8_encode secretA)
              (utf8_encode (session_id @ 0x3A # number_to_string now)))) secretB
    = (if hmac (utf8_encode secretA) (utf8_encode (session_id @ 0x3A # number_to_string now))
          = hmac (utf8_encode secretB) (utf8_encode (session_id @ 0x3A # number_to_string now))
       then \<lparr> valid = True, sessionId = Some (to_well_formed session_id), timestamp = Some now,
              error = None \<rparr>
       else invalid_token ''Invalid signature'')"
proof -
  define data where "data = session_id @ 0x3A # number_to_string now"
  have e: "utf8_encode (utf8_decode (utf8_encode data)) = utf8_encode data"
    by (simp add: utf8_decode_encode utf8_encode_to_well_formed)
  show ?thesis
  proof (cases "hmac (utf8_encode secretA) (utf8_encode data)
          = hmac (utf8_encode secretB) (utf8_encode data)")
    case True
    then show ?thesis
      using validate_generated [OF assms(3), of hmac session_id now]
      by (simp add: data_def)
  next
    case False
    then show ?thesis
      unfolding data_def [symmetric] validate_split [OF assms(3)] e by simp
  qed
qed

lemma utf8_encode_well_formed_inj:
  assumes "is_well_formed a" and "is_well_formed b" and "utf8_encode a = utf8_encode b"
  shows "a = b"
proof -
  have "utf8_decode (utf8_encode a) = utf8_decode (utf8_encode b)"
    using assms(3) by simp
  then show ?thesis
    by (simp add: utf8_decode_encode to_well_formed_id assms(1,2))
qed

lemma validate_same_block_key:
  assumes "session_id \<noteq> []" and "secretA \<noteq> []" and "secretB \<noteq> []"
      and "hmac_block_key H (utf8_encode secretA) = hmac_block_key H (utf8_encode secretB)"
  shows "case generateSessionToken (hmac_with H) now session_id secretA of
           Inl thrown \<Rightarrow> False
         | Inr token \<Rightarrow>
             validateSessionToken (hmac_with H) token secretB =
               \<lparr> valid = True, sessionId = Some (to_well_formed session_id),
                 timestamp = Some now, error = None \<rparr>"
  using hmac_with_same_block_key [OF assms(4)]
  by (simp add: generate_token [OF assms(1,2)] validate_generated [OF assms(3)])

text \<open>
  Claim C3, amended. HMAC prepares its key: the UTF-8 bytes of the secret, hashed when
  they are longer than a block of 64 bytes, then padded with zero bytes to 64 bytes. For
  non-empty strings and two secrets whose prepared keys differ, validating with the
  second secret a token generated with the first gives \<open>valid = false\<close> with the error
  \<open>Invalid signature\<close>, under the assumption that the hash function gives 32-byte
  digests and has no collision between the two messages that HMAC hashes last (the
  outer pad and the inner digest, for either key).
\<close>

theorem wrong_secret_rejected:
  assumes "session_id \<noteq> []" and "secretA \<noteq> []" and "secretB \<noteq> []"
      and "hmac_block_key H (utf8_encode secretA) \<noteq> hmac_block_key H (utf8_encode secretB)"
      and "\<And>m. length (H m) = 32"
      and "inj_on H
             {hmac_outer H (utf8_encode secretA)
                (utf8_encode (session_id @ 0x3A # number_to_string now)),
              hmac_outer H (utf8_encode secretB)
                (utf8_encode (session_id @ 0x3A # number_to_string now))}"
  shows "case generateSessionToken (hmac_with H) now session_id secretA of
           Inl thrown \<Rightarrow> False
         | Inr token \<Rightarrow>
             validateSessionToken (hmac_with H) token secretB =
               invalid_token ''Invalid signature''"
proof -
  define data where "data = utf8_encode (session_id @ 0x3A # number_to_string now)"
  have "hmac_outer H (utf8_encode secretA) data \<noteq> hmac_outer H (utf8_encode secretB) data"
    using assms(5,4) by (rule hmac_outer_differs)
  moreover have "inj_on H {hmac_outer H (utf8_encode secretA) data,
      hmac_outer H (utf8_encode secretB) data}"
    using assms(6) by (simp only: data_def)
  ultimately have "hmac_with H (utf8_encode secretA) data \<noteq> hmac_with H (utf8_encode secretB) data"
    by (auto simp: hmac_with_def inj_on_def)
  then show ?thesis
    by (simp add: generate_token [OF assms(1,2)] validate_other_secret [OF assms(1,2,3)] data_def)
qed

lemma sample_keys:
  "utf8_encode (js ''s3cr3t'') = [0x73, 0x33, 0x63, 0x72, 0x33, 0x74]"
  "utf8_encode (js ''other'') = [0x6F, 0x74, 0x68, 0x65, 0x72]"
  "utf8_encode (js ''s3cr3t'' @ [0]) = [0x73, 0x33, 0x63, 0x72, 0x33, 0x74, 0]"
  by (simp_all add: js_def utf8_encode_def unit_point_def utf8_bytes_def surrogate_unat)

theorem wrong_secret_rejected_witness:
  "case generateSessionToken (hmac_with sample_hash) 1705000000000 (js ''a:b-123'')
       (js ''s3cr3t'') of
     Inl thrown \<Rightarrow> False
   | Inr token \<Rightarrow>
       validateSessionToken (hmac_with sample_hash) token (js ''other'') =
         invalid_token ''Invalid signature''"
proof -
  define m where "m = utf8_encode (js ''a:b-123'' @ 0x3A # number_to_string 1705000000000)"
  have k: "hmac_block_key sample_hash (utf8_encode (js ''s3cr3t''))
      \<noteq> hmac_block_key sample_hash (utf8_encode (js ''other''))"
    by (simp add: sample_keys hmac_block_key_def)
  have l: "length (sample_hash x) = 32" for x
    by (simp add: sample_hash_def)
  have a: "hd (sample_hash (hmac_outer sample_hash (utf8_encode (js ''s3cr3t'')) m)) = 0x2F"
    by (simp add: sample_keys hmac_outer_def hmac_block_key_def sample_hash_def)
  have b: "hd (sample_hash (hmac_outer sample_hash (utf8_encode (js ''other'')) m)) = 0x33"
    by (simp add: sample_keys hmac_outer_def hmac_block_key_def sample_hash_def)
  have "sample_hash (hmac_outer sample_hash (utf8_encode (js ''s3cr3t'')) m)
      \<noteq> sample_hash (hmac_outer sample_hash (utf8_encode (js ''other'')) m)"
  proof
    assume "sample_hash (hmac_outer sample_hash (utf8_encode (js ''s3cr3t'')) m)
      = sample_hash (hmac_outer sample_hash (utf8_encode (js ''other'')) m)"
    then have "hd (sample_hash (hmac_outer sample_hash (utf8_encode (js ''s3cr3t'')) m))
        = hd (sample_hash (hmac_outer sample_hash (utf8_encode (js ''other'')) m))"
      by (rule arg_cong)
    then have "(0x2F :: byte) = 0x33" by (simp only: a b)
    then show False by simp
  qed
  then have "inj_on sample_hash
             {hmac_outer sample_hash (utf8_encode (js ''s3cr3t'')) m,
              hmac_outer sample_hash (utf8_encode (js ''other'')) m}"
    by (auto simp: inj_on_def)
  then have i: "inj_on sample_hash
             {hmac_outer sample_hash (utf8_encode (js ''s3cr3t''))
                (utf8_encode (js ''a:b-123'' @ 0x3A # number_to_string 1705000000000)),
              hmac_outer sample_hash (utf8_encode (js ''other''))
                (utf8_encode (js ''a:b-123'' @ 0x3A # number_to_string 1705000000000))}"
    unfolding m_def .
  from wrong_secret_rejected [where H = sample_hash and now = 1705000000000,
      OF sample_inputs(1,2,4) k l i]
  show ?thesis .
qed

text \<open>
  The secrets \<open>s3cr3t\<close> and \<open>s3cr3t\<close> followed by U+0000 differ, and so do their UTF-8
  bytes, but HMAC pads both to the same key: whatever the hash function is, a token
  generated with the first is accepted with the second.
\<close>

theorem padded_key_counterexample:
  "js ''s3cr3t'' \<noteq> js ''s3cr3t'' @ [0]
   \<and> utf8_encode (js ''s3cr3t'') \<noteq> utf8_encode (js ''s3cr3t'' @ [0])
   \<and> (\<forall>H. case generateSessionToken (hmac_with H) 1705000000000 (js ''abc-123'')
               (js ''s3cr3t'') of
          Inl thrown \<Rightarrow> False
        | Inr token \<Rightarrow>
            validateSessionToken (hmac_with H) token (js ''s3cr3t'' @ [0]) =
              \<lparr> valid = True, sessionId = Some (js ''abc-123''),
                timestamp = Some 1705000000000, error = None \<rparr>)"
proof -
  have n: "js ''abc-123'' \<noteq> []" "js ''s3cr3t'' \<noteq> []" "js ''s3cr3t'' @ [0] \<noteq> []"
    by (simp_all add: js_def)
  have w: "to_well_formed (js ''abc-123'') = js ''abc-123''"
    by (rule to_well_formed_id) (simp add: js_def surrogate_unat)
  have k: "hmac_block_key H (utf8_encode (js ''s3cr3t''))
      = hmac_block_key H (utf8_encode (js ''s3cr3t'' @ [0]))" for H
    by (simp add: sample_keys hmac_block_key_def numeral_eq_Suc)
  have d: "utf8_encode (js ''s3cr3t'') \<noteq> utf8_encode (js ''s3cr3t'' @ [0])"
    by (simp add: sample_keys)
  have "case generateSessionToken (hmac_with H) 1705000000000 (js ''abc-123'')
               (js ''s3cr3t'') of
          Inl thrown \<Rightarrow> False
        | Inr token \<Rightarrow>
            validateSessionToken (hmac_with H) token (js ''s3cr3t'' @ [0]) =
              \<lparr> valid = True, sessionId = Some (js ''abc-123''),
                timestamp = Some 1705000000000, error = None \<rparr>" for H
    using validate_same_block_key [OF n k, of H 1705000000000] by (simp only: w)
  with d show ?thesis by simp
qed

text \<open>
  Two different secrets with the same UTF-8 bytes are the same HMAC key as well: a token
  generated with the secret U+D800 (a lone surrogate) is accepted with the secret
  U+FFFD.
\<close>

lemma same_key_bytes_accepted:
  "case generateSessionToken (hmac_with H) 1705000000000 (js ''abc-123'') [0xD800] of
     Inl thrown \<Rightarrow> False
   | Inr token \<Rightarrow>
       validateSessionToken (hmac_with H) token [0xFFFD] =
         \<lparr> valid = True, sessionId = Some (js ''abc-123''),
           timestamp = Some 1705000000000, error = None \<rparr>"
proof -
  have k: "utf8_encode [0xD800] = utf8_encode [0xFFFD]"
    by (simp add: utf8_encode_def unit_point_def surrogate_unat)
  have n: "js ''abc-123'' \<noteq> []" "[0xD800 :: code_unit] \<noteq> []" "[0xFFFD :: code_unit] \<noteq> []"
    by (simp_all add: js_def)
  have w: "to_well_formed (js ''abc-123'') = js ''abc-123''"
    by (rule to_well_formed_id) (simp add: js_def surrogate_unat)
  have "hmac_block_key H (utf8_encode [0xD800]) = hmac_block_key H (utf8_encode [0xFFFD])"
    by (simp only: k)
  from validate_same_block_key [OF n this, of 1705000000000] show ?thesis
    by (simp only: w)
qed

subsection \<open>The shape of a validation result\<close>

lemma validate_cases:
  "(\<exists>message. validateSessionToken hmac token secret = invalid_token message)
   \<or> (\<exists>sid ts. validateSessionToken hmac token secret =
         \<lparr> valid = True, sessionId = Some sid, timestamp = Some ts, error = None \<rparr>)"
  unfolding validateSessionToken_def Let_def
  by (auto split: option.splits)

lemma validate_never_base64_error:
  "validateSessionToken hmac token secret \<noteq> invalid_token ''Invalid base64 encoding''"
  unfolding validateSessionToken_def Let_def
  by (simp add: invalid_token_def base64_decode_def split: option.splits)


lemma valid_invalid_token [simp]:
  "\<not> valid (invalid_token message)" "error (invalid_token message) = Some message"
  "timestamp (invalid_token message) = None" "sessionId (invalid_token message) = None"
  by (simp_all add: invalid_token_def)

subsection \<open>Expiry\<close>

text \<open>
  Claim C9. \<open>isSessionTokenExpired\<close> fails closed: a token that validation rejects is
  reported as expired, with the error of the validation (which is never empty); a token
  that validation accepts is expired exactly when \<open>now - timestamp > maxAgeMs\<close>, with
  \<open>ageMs = now - timestamp\<close>; so a negative age is not expired for any \<open>maxAgeMs \<ge> 0\<close>.
\<close>

theorem expiry_fails_closed:
  "(\<not> valid (validateSessionToken hmac token secret) \<longrightarrow>
      isSessionTokenExpired hmac now token secret maxAgeMs =
        \<lparr> expired = True, ageMs = None,
          expiry_error = error (validateSessionToken hmac token secret) \<rparr>
      \<and> error (validateSessionToken hmac token secret) \<noteq> None)
   \<and> (valid (validateSessionToken hmac token secret) \<longrightarrow>
        (\<exists>ts. timestamp (validateSessionToken hmac token secret) = Some ts
           \<and> isSessionTokenExpired hmac now token secret maxAgeMs =
               \<lparr> expired = (now - ts > maxAgeMs), ageMs = Some (now - ts),
                 expiry_error = None \<rparr>
           \<and> (now < ts \<and> 0 \<le> maxAgeMs \<longrightarrow>
                 \<not> expired (isSessionTokenExpired hmac now token secret maxAgeMs))))"
proof -
  from validate_cases [of hmac token secret]
  show ?thesis
  proof (elim disjE exE)
    fix message
    assume "validateSessionToken hmac token secret = invalid_token message"
    then show ?thesis by (simp add: isSessionTokenExpired_def)
  next
    fix sid ts
    assume "validateSessionToken hmac token secret =
         \<lparr> valid = True, sessionId = Some sid, timestamp = Some ts, error = None \<rparr>"
    then show ?thesis by (simp add: isSessionTokenExpired_def)
  qed
qed

lemma sample_token:
  "generateSessionToken sample_hmac 1705000000000 (js ''a:b-123'') (js ''s3cr3t'') =
     Inr (base64_encode (utf8_encode (js ''a:b-123'' @ 0x3A # number_to_string 1705000000000))
          @ 0x2E # hex_encode (sample_hmac (utf8_encode (js ''s3cr3t''))
              (utf8_encode (js ''a:b-123'' @ 0x3A # number_to_string 1705000000000))))"
  "validateSessionToken sample_hmac
     (base64_encode (utf8_encode (js ''a:b-123'' @ 0x3A # number_to_string 1705000000000))
          @ 0x2E # hex_encode (sample_hmac (utf8_encode (js ''s3cr3t''))
              (utf8_encode (js ''a:b-123'' @ 0x3A # number_to_string 1705000000000))))
     (js ''s3cr3t'') =
     \<lparr> valid = True, sessionId = Some (js ''a:b-123''), timestamp = Some 1705000000000,
       error = None \<rparr>"
  using validate_generated [OF sample_inputs(2), of sample_hmac "js ''a:b-123''" 1705000000000]
    to_well_formed_id [OF sample_inputs(3)]
  by (simp_all add: generate_token [OF sample_inputs(1,2)])

lemma invalid_sample: "validateSessionToken sample_hmac (js ''invalid'') (js ''s3cr3t'')
    = invalid_token ''Invalid token format''"
proof -
  have "0x2E \<notin> set (js ''invalid'')" by (simp add: js_def)
  then have "split_unit 0x2E (js ''invalid'') = [js ''invalid'']" by (rule split_unit_none)
  then show ?thesis
    by (simp add: validateSessionToken_def Let_def) (simp add: js_def)
qed

theorem expiry_fails_closed_witness:
  "isSessionTokenExpired sample_hmac 1705000060000 (js ''invalid'') (js ''s3cr3t'') 60000 =
     \<lparr> expired = True, ageMs = None, expiry_error = Some ''Invalid token format'' \<rparr>
   \<and> (case generateSessionToken sample_hmac 1705000000000 (js ''a:b-123'') (js ''s3cr3t'') of
        Inl thrown \<Rightarrow> False
      | Inr token \<Rightarrow>
          isSessionTokenExpired sample_hmac 1705000060000 token (js ''s3cr3t'') 60000 =
            \<lparr> expired = False, ageMs = Some 60000, expiry_error = None \<rparr>
        \<and> isSessionTokenExpired sample_hmac 1705000060001 token (js ''s3cr3t'') 60000 =
            \<lparr> expired = True, ageMs = Some 60001, expiry_error = None \<rparr>
        \<and> isSessionTokenExpired sample_hmac 1704999999000 token (js ''s3cr3t'') 60000 =
            \<lparr> expired = False, ageMs = Some (- 1000), expiry_error = None \<rparr>)"
proof -
  define token where "token =
    base64_encode (utf8_encode (js ''a:b-123'' @ 0x3A # number_to_string 1705000000000)) @ 0x2E
      # hex_encode (sample_hmac (utf8_encode (js ''s3cr3t''))
          (utf8_encode (js ''a:b-123'' @ 0x3A # number_to_string 1705000000000)))"
  have g: "generateSessionToken sample_hmac 1705000000000 (js ''a:b-123'') (js ''s3cr3t'')
      = Inr token"
    unfolding token_def by (rule sample_token(1))
  have v: "validateSessionToken sample_hmac token (js ''s3cr3t'') =
      \<lparr> valid = True, sessionId = Some (js ''a:b-123''), timestamp = Some 1705000000000,
        error = None \<rparr>"
    unfolding token_def by (rule sample_token(2))
  have 1: "isSessionTokenExpired sample_hmac 1705000060000 (js ''invalid'') (js ''s3cr3t'') 60000 =
     \<lparr> expired = True, ageMs = None, expiry_error = Some ''Invalid token format'' \<rparr>"
    using expiry_fails_closed [of sample_hmac "js ''invalid''" "js ''s3cr3t''" 1705000060000 60000]
    by (simp add: invalid_sample)
  have 2: "isSessionTokenExpired sample_hmac t token (js ''s3cr3t'') 60000 =
     \<lparr> expired = (t - 1705000000000 > 60000), ageMs = Some (t - 1705000000000),
       expiry_error = None \<rparr>" for t
    using expiry_fails_closed [of sample_hmac token "js ''s3cr3t''" t 60000]
    by (simp add: v)
  show ?thesis
    by (simp add: g 1 2)
qed


subsection \<open>Errors that are, and are not, reported\<close>

lemma bad_base64_sample:
  "validateSessionToken sample_hmac (js ''!!!!.00'') (js ''s3cr3t'')
     = invalid_token ''Invalid signature''"
  by code_simp

text \<open>
  Claim C5 fails on the code. \<open>Buffer.from(s, 'base64')\<close> never throws, so the \<open>catch\<close>
  that returns \<open>Invalid base64 encoding\<close> is never entered: no token and no secret give
  that error. A token whose data part is not valid base64 is decoded leniently and then,
  as a rule, fails the signature check.
\<close>

theorem base64_error_unreachable:
  "validateSessionToken hmac token secret \<noteq> invalid_token ''Invalid base64 encoding''"
  using validate_never_base64_error .

theorem base64_error_unreachable_witness:
  "validateSessionToken sample_hmac (js ''!!!!.00'') (js ''s3cr3t'')
     \<noteq> invalid_token ''Invalid base64 encoding''
   \<and> validateSessionToken sample_hmac (js ''!!!!.00'') (js ''s3cr3t'')
     = invalid_token ''Invalid signature''"
  using base64_error_unreachable [of sample_hmac "js ''!!!!.00''" "js ''s3cr3t''"]
    bad_base64_sample
  by (rule conjI)

lemma split_unit_not_empty: "split_unit sep token = [a, b] \<Longrightarrow> token \<noteq> []"
proof
  assume "split_unit sep token = [a, b]" "token = []"
  then show False by (simp add: split_unit.simps [of sep "[]"])
qed

lemma validate_parts:
  assumes "secret \<noteq> []" and "split_unit 0x2E token = [encodedData, signature]"
      and "base64_decode encodedData = Some decoded"
  shows "validateSessionToken hmac token secret =
     (if hex_decode signature \<noteq> hmac (utf8_encode secret) (utf8_encode (utf8_decode decoded))
      then invalid_token ''Invalid signature''
      else if lastIndexOf (utf8_decode decoded) 0x3A = - 1
      then invalid_token ''Invalid token data format''
      else case parseInt (slice_from (utf8_decode decoded)
                  (lastIndexOf (utf8_decode decoded) 0x3A + 1)) of
             None \<Rightarrow> invalid_token ''Invalid timestamp''
           | Some ts \<Rightarrow>
               \<lparr> valid = True,
                 sessionId = Some (slice_to (utf8_decode decoded)
                   (lastIndexOf (utf8_decode decoded) 0x3A)),
                 timestamp = Some ts, error = None \<rparr>)"
  unfolding validateSessionToken_def assms(2)
  using assms(1,3) split_unit_not_empty [OF assms(2)]
  by (auto simp: hex_decode_encode timingSafeEqual_def Let_def)

lemma valid_has_parts:
  assumes "valid (validateSessionToken hmac token secret)"
  shows "\<exists>encodedData signature decoded.
           secret \<noteq> [] \<and> split_unit 0x2E token = [encodedData, signature]
           \<and> base64_decode encodedData = Some decoded"
proof -
  have s: "secret \<noteq> []" and l: "length (split_unit 0x2E token) = 2"
    using assms unfolding validateSessionToken_def Let_def
    by (auto split: if_splits)
  then obtain a b where "split_unit 0x2E token = [a, b]"
    by (cases "split_unit 0x2E token"; cases "tl (split_unit 0x2E token)") auto
  then show ?thesis using s by (simp add: base64_decode_def)
qed

text \<open>
  Claim C10. When the token has two parts and a valid signature, but the decoded data
  holds no \<open>:\<close>, the result is \<open>valid = false\<close> with the error
  \<open>Invalid token data format\<close> (not \<open>Invalid timestamp\<close>). So whenever validation
  succeeds, the decoded data holds a \<open>:\<close> and the session id is the data before its
  last \<open>:\<close>.
\<close>

theorem missing_colon_rejected:
  "(secret \<noteq> [] \<and> split_unit 0x2E token = [encodedData, signature]
      \<and> base64_decode encodedData = Some decoded
      \<and> hex_decode signature = hmac (utf8_encode secret) (utf8_encode (utf8_decode decoded))
      \<and> 0x3A \<notin> set (utf8_decode decoded)
    \<longrightarrow> validateSessionToken hmac token secret = invalid_token ''Invalid token data format'')
   \<and> (valid (validateSessionToken hmac token secret) \<longrightarrow>
        (\<exists>encodedData signature decoded.
           split_unit 0x2E token = [encodedData, signature]
           \<and> base64_decode encodedData = Some decoded
           \<and> 0x3A \<in> set (utf8_decode decoded)
           \<and> sessionId (validateSessionToken hmac token secret) =
               Some (slice_to (utf8_decode decoded) (lastIndexOf (utf8_decode decoded) 0x3A))))"
proof (intro conjI impI)
  assume "secret \<noteq> [] \<and> split_unit 0x2E token = [encodedData, signature]
      \<and> base64_decode encodedData = Some decoded
      \<and> hex_decode signature = hmac (utf8_encode secret) (utf8_encode (utf8_decode decoded))
      \<and> 0x3A \<notin> set (utf8_decode decoded)"
  then have a: "secret \<noteq> []" "split_unit 0x2E token = [encodedData, signature]"
      "base64_decode encodedData = Some decoded"
      "hex_decode signature = hmac (utf8_encode secret) (utf8_encode (utf8_decode decoded))"
      "lastIndexOf (utf8_decode decoded) 0x3A = - 1"
    by (simp_all add: lastIndexOf_absent)
  show "validateSessionToken hmac token secret = invalid_token ''Invalid token data format''"
    unfolding validate_parts [OF a(1,2,3)] using a(4,5) by simp
next
  assume v: "valid (validateSessionToken hmac token secret)"
  from valid_has_parts [OF this] obtain encodedData signature decoded
    where p: "secret \<noteq> []" "split_unit 0x2E token = [encodedData, signature]"
      "base64_decode encodedData = Some decoded"
    by blast
  note r = validate_parts [OF p, of hmac]
  have c: "lastIndexOf (utf8_decode decoded) 0x3A \<noteq> - 1"
    using v unfolding r by (auto split: if_splits)
  then have "0x3A \<in> set (utf8_decode decoded)"
    by (simp add: lastIndexOf_absent)
  moreover have "sessionId (validateSessionToken hmac token secret) =
      Some (slice_to (utf8_decode decoded) (lastIndexOf (utf8_decode decoded) 0x3A))"
    using v unfolding r by (auto split: if_splits option.splits)
  ultimately show "\<exists>encodedData signature decoded.
           split_unit 0x2E token = [encodedData, signature]
           \<and> base64_decode encodedData = Some decoded
           \<and> 0x3A \<in> set (utf8_decode decoded)
           \<and> sessionId (validateSessionToken hmac token secret) =
               Some (slice_to (utf8_decode decoded) (lastIndexOf (utf8_decode decoded) 0x3A))"
    using p(2,3) by blast
qed

lemma no_colon_token:
  "base64_encode (utf8_encode (js ''nocolon'')) @ 0x2E
     # hex_encode (sample_hmac (utf8_encode (js ''s3cr3t'')) (utf8_encode (js ''nocolon'')))
   = js ''bm9jb2xvbg==.7333637233746e6f636f6c6f6e00000000000000000000000000000000000000''"
  by code_simp

theorem missing_colon_rejected_witness:
  "validateSessionToken sample_hmac
     (js ''bm9jb2xvbg==.7333637233746e6f636f6c6f6e00000000000000000000000000000000000000'')
     (js ''s3cr3t'') = invalid_token ''Invalid token data format''"
proof -
  define bs where "bs = utf8_encode (js ''nocolon'')"
  define sig where "sig = sample_hmac (utf8_encode (js ''s3cr3t'')) bs"
  define token where "token = base64_encode bs @ 0x2E # hex_encode sig"
  have w: "is_well_formed (js ''nocolon'')" by (simp add: js_def surrogate_unat)
  have d: "utf8_decode bs = js ''nocolon''"
    by (simp add: bs_def utf8_decode_encode to_well_formed_id [OF w])
  have 1: "js ''s3cr3t'' \<noteq> []" by (rule sample_inputs(2))
  have 2: "split_unit 0x2E token = [base64_encode bs, hex_encode sig]"
    unfolding token_def by (rule split_unit_one [OF base64_encode_no_dot hex_encode_no_dot])
  have 3: "base64_decode (base64_encode bs) = Some bs"
    by (simp add: base64_decode_def base64_decode_encode)
  have 4: "hex_decode (hex_encode sig) = sample_hmac (utf8_encode (js ''s3cr3t''))
      (utf8_encode (utf8_decode bs))"
    unfolding d by (simp add: hex_decode_encode sig_def bs_def)
  have 5: "0x3A \<notin> set (utf8_decode bs)"
    unfolding d by (simp add: js_def)
  have "validateSessionToken sample_hmac token (js ''s3cr3t'')
      = invalid_token ''Invalid token data format''"
    using missing_colon_rejected [of "js ''s3cr3t''" token "base64_encode bs" "hex_encode sig" bs
        sample_hmac, THEN conjunct1] 1 2 3 4 5
    by blast
  then show ?thesis
    by (simp only: token_def sig_def bs_def no_colon_token)
qed

section \<open>Session environment files: properties\<close>

lemma join_strings_terminated:
  "xs \<noteq> [] \<Longrightarrow> join_strings sep xs @ sep = concat (map (\<lambda>x. x @ sep) xs)"
  by (induction sep xs rule: join_strings.induct) simp_all

lemma set_object_entries: "set (object_entries obj) = set obj"
  by (auto simp: object_entries_def)

lemma length_object_entries: "length (object_entries obj) = length obj"
proof -
  have "length (filter P xs) + length (filter (\<lambda>x. \<not> P x) xs) = length xs"
    for P and xs :: "(js_string \<times> js_value) list"
    by (rule sum_length_filter_compl)
  from this [of "\<lambda>e. array_index (fst e) \<noteq> None" obj]
  show ?thesis by (simp add: object_entries_def)
qed

lemma object_entries_insertion_order:
  assumes "\<forall>e \<in> set obj. array_index (fst e) = None"
  shows "object_entries obj = obj"
proof -
  have "filter (\<lambda>e. array_index (fst e) \<noteq> None) obj = []"
    using assms by (simp add: filter_empty_conv)
  moreover have "filter (\<lambda>e. array_index (fst e) = None) obj = obj"
    using assms by (simp add: filter_id_conv)
  ultimately show ?thesis by (simp add: object_entries_def)
qed

lemma created_file_content:
  assumes "createSessionEnvFile path_join mkdir_outcome write_outcome options fs = Inr (file, fs')"
  shows "\<exists>credentials node. opt_credentials options = Some credentials
           \<and> fs' (containerPath file) = Some node
           \<and> content node = env_content credentials"
  using assms unfolding createSessionEnvFile_def Let_def
  by (auto split: if_splits option.splits fs_outcome.splits)

text \<open>
  Claim C8, amended. The content that \<open>createSessionEnvFile\<close> writes is built from the
  entries of the credentials in the order of \<open>Object.entries\<close> (the same entries as the
  object's, and in insertion order when no key is an array index): the entries whose
  value is neither \<open>undefined\<close>, \<open>null\<close> nor the empty string, each written as
  \<open>KEY=VALUE\<close> followed by a newline; an entry with an absent or empty value gives no
  line; and when no entry is left the content is a single newline.
\<close>

theorem env_file_content:
  assumes "createSessionEnvFile path_join mkdir_outcome write_outcome options fs = Inr (file, fs')"
  shows "\<exists>credentials node kept.
           opt_credentials options = Some credentials
           \<and> fs' (containerPath file) = Some node
           \<and> kept = filter (\<lambda>e. snd e \<noteq> JUndefined \<and> snd e \<noteq> JNull \<and> snd e \<noteq> JString [])
                       (object_entries credentials)
           \<and> content node =
               (if kept = [] then [0x0A]
                else concat (map (\<lambda>e. fst e @ [0x3D] @ to_string (snd e) @ [0x0A]) kept))
           \<and> set (object_entries credentials) = set credentials
           \<and> length (object_entries credentials) = length credentials
           \<and> ((\<forall>e \<in> set credentials. array_index (fst e) = None) \<longrightarrow>
                 object_entries credentials = credentials)"
proof -
  from created_file_content [OF assms] obtain credentials node
    where c: "opt_credentials options = Some credentials"
      "fs' (containerPath file) = Some node" "content node = env_content credentials"
    by blast
  define kept where "kept =
    filter (\<lambda>e. snd e \<noteq> JUndefined \<and> snd e \<noteq> JNull \<and> snd e \<noteq> JString [])
      (object_entries credentials)"
  have k: "filter (\<lambda>(key, v). v \<noteq> JUndefined \<and> v \<noteq> JNull \<and> v \<noteq> JString [])
      (object_entries credentials) = kept"
    unfolding kept_def by (rule filter_cong) auto
  have m: "map (\<lambda>(key, v). key @ [0x3D] @ to_string v) kept
      = map (\<lambda>e. fst e @ [0x3D] @ to_string (snd e)) kept"
    by (rule map_cong) auto
  have "env_content credentials =
      (if kept = [] then [0x0A]
       else concat (map (\<lambda>e. fst e @ [0x3D] @ to_string (snd e) @ [0x0A]) kept))"
  proof (cases "kept = []")
    case True
    then show ?thesis unfolding env_content_def k by simp
  next
    case False
    then have "map (\<lambda>e. fst e @ [0x3D] @ to_string (snd e)) kept \<noteq> []" by simp
    from join_strings_terminated [OF this, of "[0x0A]"] False
    show ?thesis unfolding env_content_def k m by (simp add: comp_def)
  qed
  then show ?thesis
    using c kept_def set_object_entries [of credentials] length_object_entries [of credentials]
      object_entries_insertion_order [of credentials]
    by (intro exI [of _ credentials] exI [of _ node] exI [of _ kept]) simp
qed

text \<open>
  A key that is an array index is listed first, whenever it was inserted: for the
  credentials \<open>{ B: 'x', 1: 'y' }\<close> the content is \<open>1=y\<close>, newline, \<open>B=x\<close>, newline.
\<close>

theorem env_content_order_counterexample:
  "env_content [(js ''B'', JString (js ''x'')), (js ''1'', JString (js ''y''))]
     = js ''1=y'' @ [0x0A] @ js ''B=x'' @ [0x0A]
   \<and> env_content [(js ''B'', JString (js ''x'')), (js ''1'', JString (js ''y''))]
     \<noteq> js ''B=x'' @ [0x0A] @ js ''1=y'' @ [0x0A]"
  by code_simp

lemma sample_created:
  "createSessionEnvFile sample_join Done Done sample_options Map.empty =
     Inr (\<lparr> containerPath = js ''/run/session-env/session-abc-123.env'',
            hostPath = js ''/tmp/session-env/session-abc-123.env'' \<rparr>,
          [js ''/run/session-env/session-abc-123.env'' \<mapsto>
             \<lparr> content = env_content
                 [(js ''API_TOKEN'', JString (js ''secret-token'')), (js ''EMPTY'', JString []),
                  (js ''MISSING'', JUndefined),
                  (js ''API_EMAIL'', JString (js ''user@example.com''))],
               mode = 0x180 \<rparr>])"
  by (simp add: createSessionEnvFile_def sample_options_def sample_join_def Let_def js_def)

lemma sample_kept:
  "filter (\<lambda>e. snd e \<noteq> JUndefined \<and> snd e \<noteq> JNull \<and> snd e \<noteq> JString [])
     (object_entries
       [(js ''API_TOKEN'', JString (js ''secret-token'')), (js ''EMPTY'', JString []),
        (js ''MISSING'', JUndefined), (js ''API_EMAIL'', JString (js ''user@example.com''))])
   = [(js ''API_TOKEN'', JString (js ''secret-token'')),
      (js ''API_EMAIL'', JString (js ''user@example.com''))]"
  by code_simp

theorem env_file_content_witness:
  "\<exists>node. snd (projr (createSessionEnvFile sample_join Done Done sample_options Map.empty))
             (js ''/run/session-env/session-abc-123.env'') = Some node
         \<and> content node =
             js ''API_TOKEN=secret-token'' @ [0x0A] @ js ''API_EMAIL=user@example.com'' @ [0x0A]"
proof -
  define creds :: js_object where "creds =
    [(js ''API_TOKEN'', JString (js ''secret-token'')), (js ''EMPTY'', JString []),
     (js ''MISSING'', JUndefined), (js ''API_EMAIL'', JString (js ''user@example.com''))]"
  define fs' where "fs' = [js ''/run/session-env/session-abc-123.env'' \<mapsto>
             \<lparr> content = env_content creds, mode = 0x180 \<rparr>]"
  define created where "created = \<lparr> containerPath = js ''/run/session-env/session-abc-123.env'',
            hostPath = js ''/tmp/session-env/session-abc-123.env'' \<rparr>"
  have c: "createSessionEnvFile sample_join Done Done sample_options Map.empty = Inr (created, fs')"
    unfolding created_def fs'_def creds_def by (rule sample_created)
  have o: "opt_credentials sample_options = Some creds"
    by (simp add: sample_options_def creds_def)
  from env_file_content [OF c] obtain node kept
    where n: "fs' (containerPath created) = Some node"
      "kept = filter (\<lambda>e. snd e \<noteq> JUndefined \<and> snd e \<noteq> JNull \<and> snd e \<noteq> JString [])
                       (object_entries creds)"
      "content node =
               (if kept = [] then [0x0A]
                else concat (map (\<lambda>e. fst e @ [0x3D] @ to_string (snd e) @ [0x0A]) kept))"
    using o by auto
  have k: "kept = [(js ''API_TOKEN'', JString (js ''secret-token'')),
      (js ''API_EMAIL'', JString (js ''user@example.com''))]"
    unfolding n(2) creds_def by (rule sample_kept)
  have "content node =
      js ''API_TOKEN=secret-token'' @ [0x0A] @ js ''API_EMAIL=user@example.com'' @ [0x0A]"
    unfolding n(3) k by (simp add: to_string_def js_def)
  then show ?thesis
    using n(1) by (simp add: c created_def)
qed

end
